theory Spec2Isabelle
  imports Main
begin

section \<open>The goban of giles/games/goban.py\<close>

text \<open>
  A shallow embedding of the class \<open>Goban\<close>: the grid, its resize and invert
  operations, the move engine \<open>go_play\<close>, the capture resolver
  \<open>go_find_captures\<close> and the recursive group traversal \<open>recurse_captures\<close>.

  Colours are the two module constants \<open>WHITE\<close> and \<open>BLACK\<close>; a cell of the
  board holds one of them or Python's \<open>None\<close>. Coordinates, widths and heights are
  Python integers, hence \<open>int\<close>. The attribute \<open>printable_board\<close> is a rendering
  computed from the other attributes by \<open>update_printable_board\<close>; it is read by no
  operation modelled here and is left out of the record, and the calls of
  \<open>update_printable_board\<close> that end \<open>init_board\<close>, \<open>invert\<close> and \<open>go_play\<close>
  are not modelled (the rendering also reads the table \<open>LETTERS\<close> of
  \<open>giles.utils\<close>, which is not among the sources at hand).
\<close>

subsection \<open>Data\<close>

datatype color = WHITE | BLACK

type_synonym cell = "color option"

type_synonym coord = "int \<times> int"

type_synonym visit_table = "bool list list"

text \<open>The exceptions the modelled code can raise.\<close>

datatype error = IndexError | UnboundLocalError | TypeError

record goban =
  width :: int
  height :: int
  board :: "cell list list"
  last_row :: "int option"
  last_col :: "int option"

definition MIN_SIZE :: int where
  "MIN_SIZE = 3"

definition MAX_SIZE :: int where
  "MAX_SIZE = 26"

definition SQUARE_DELTAS :: "(int \<times> int) list" where
  "SQUARE_DELTAS = [(-1, 0), (1, 0), (0, -1), (0, 1)]"

subsection \<open>Python list subscripts\<close>

text \<open>
  \<open>xs[i]\<close> and \<open>xs[i] = v\<close> on a Python list: a negative index counts from the end,
  and an index out of range raises \<open>IndexError\<close>. \<open>subscript2\<close> and \<open>store2\<close> are
  \<open>g[r][c]\<close> and \<open>g[r][c] = v\<close> on a list of rows; the rows of the board and of a
  visitation table are distinct list objects, so a store changes one row only.
\<close>

definition py_index :: "nat \<Rightarrow> int \<Rightarrow> nat option" where
  "py_index len i =
     (if 0 \<le> i \<and> i < int len then Some (nat i)
      else if i < 0 \<and> - int len \<le> i then Some (nat (int len + i))
      else None)"

definition subscript :: "'a list \<Rightarrow> int \<Rightarrow> error + 'a" where
  "subscript xs i =
     (case py_index (length xs) i of None \<Rightarrow> Inl IndexError | Some k \<Rightarrow> Inr (xs ! k))"

definition store :: "'a list \<Rightarrow> int \<Rightarrow> 'a \<Rightarrow> error + 'a list" where
  "store xs i v =
     (case py_index (length xs) i of None \<Rightarrow> Inl IndexError | Some k \<Rightarrow> Inr (xs[k := v]))"

definition subscript2 :: "'a list list \<Rightarrow> int \<Rightarrow> int \<Rightarrow> error + 'a" where
  "subscript2 g r c = (case subscript g r of Inl e \<Rightarrow> Inl e | Inr rw \<Rightarrow> subscript rw c)"

definition store2 :: "'a list list \<Rightarrow> int \<Rightarrow> int \<Rightarrow> 'a \<Rightarrow> error + 'a list list" where
  "store2 g r c v =
     (case subscript g r of
        Inl e \<Rightarrow> Inl e
      | Inr rw \<Rightarrow> (case store rw c v of Inl e \<Rightarrow> Inl e | Inr rw' \<Rightarrow> store g r rw'))"

subsection \<open>Construction, resize, invert\<close>

text \<open>
  \<open>init_board\<close> builds \<open>height\<close> rows of \<open>[None] * width\<close>; \<open>range\<close> of a
  non-positive number is empty and a list times a non-positive number is \<open>[]\<close>,
  which is what \<open>nat\<close> gives. It assigns \<open>board\<close> only. \<open>new_goban\<close> is
  \<open>__init__\<close>.
\<close>

definition init_board :: "goban \<Rightarrow> goban" where
  "init_board g = g\<lparr>board := replicate (nat (height g)) (replicate (nat (width g)) None)\<rparr>"

definition new_goban :: goban where
  "new_goban = init_board \<lparr>width = 19, height = 19, board = [], last_row = None, last_col = None\<rparr>"

definition resize :: "int \<Rightarrow> int \<Rightarrow> goban \<Rightarrow> goban" where
  "resize w h g =
     (if w < MIN_SIZE \<or> w > MAX_SIZE \<or> h < MIN_SIZE \<or> h > MAX_SIZE then g
      else init_board (g\<lparr>width := w, height := h\<rparr>))"

fun invert_cell :: "cell \<Rightarrow> cell" where
  "invert_cell (Some BLACK) = Some WHITE"
| "invert_cell (Some WHITE) = Some BLACK"
| "invert_cell None = None"

definition invert :: "goban \<Rightarrow> goban" where
  "invert g = g\<lparr>board := map (map invert_cell) (board g)\<rparr>"

subsection \<open>Bounds check\<close>

definition is_valid :: "goban \<Rightarrow> int \<Rightarrow> int \<Rightarrow> bool" where
  "is_valid g row col = (row \<ge> 0 \<and> row < height g \<and> col \<ge> 0 \<and> col < width g)"

subsection \<open>The group traversal\<close>

text \<open>
  \<open>recurse_captures\<close> returns \<open>None\<close> (this branch contributes nothing), \<open>[]\<close>
  (a liberty was found) or the non-empty list of the stones visited; the model's result
  is a \<open>coord list option\<close>. The visitation table is one mutable object shared by the
  whole recursion, so the model threads it through and returns it.
  \<open>recurse_deltas\<close> is the loop \<open>for delta in SQUARE_DELTAS\<close> of the body, with the
  remaining deltas and \<open>return_list\<close> as loop state.
\<close>

function recurse_captures ::
    "goban \<Rightarrow> color \<Rightarrow> int \<Rightarrow> int \<Rightarrow> visit_table \<Rightarrow> error + (coord list option \<times> visit_table)"
  and recurse_deltas ::
    "goban \<Rightarrow> color \<Rightarrow> int \<Rightarrow> int \<Rightarrow> (int \<times> int) list \<Rightarrow> coord list \<Rightarrow> visit_table
       \<Rightarrow> error + (coord list option \<times> visit_table)"
where
  "recurse_captures g color row col visit_table =
     (if \<not> is_valid g row col then Inr (None, visit_table)
      else case subscript2 visit_table row col of
        Inl e \<Rightarrow> Inl e
      | Inr visited \<Rightarrow>
          if visited then Inr (None, visit_table)
          else case subscript2 (board g) row col of
            Inl e \<Rightarrow> Inl e
          | Inr None \<Rightarrow> Inr (Some [], visit_table)
          | Inr (Some c) \<Rightarrow>
              if c \<noteq> color then Inr (None, visit_table)
              else case store2 visit_table row col True of
                Inl e \<Rightarrow> Inl e
              | Inr visit_table' \<Rightarrow>
                  recurse_deltas g color row col SQUARE_DELTAS [(row, col)] visit_table')"
| "recurse_deltas g color row col [] return_list visit_table = Inr (Some return_list, visit_table)"
| "recurse_deltas g color row col (delta # deltas) return_list visit_table =
     (case recurse_captures g color (row + fst delta) (col + snd delta) visit_table of
        Inl e \<Rightarrow> Inl e
      | Inr (None, visit_table') \<Rightarrow> recurse_deltas g color row col deltas return_list visit_table'
      | Inr (Some [], visit_table') \<Rightarrow> Inr (Some [], visit_table')
      | Inr (Some (p # ps), visit_table') \<Rightarrow>
          recurse_deltas g color row col deltas (return_list @ p # ps) visit_table')"
  by pat_completeness auto

text \<open>
  Termination: every recursive descent marks a cell that was unmarked, and a table has
  finitely many cells. The calls are nested through the table a call returns, so the
  bound on the returned table is proved on the domain of the function first.
\<close>

definition unvisited :: "visit_table \<Rightarrow> nat" where
  "unvisited vt = sum_list (map (\<lambda>r. length (filter Not r)) vt)"

lemma py_index_Some: "py_index len i = Some k \<Longrightarrow> k < len"
  by (auto simp: py_index_def split: if_splits)

lemma subscript_Inr:
  assumes "subscript xs i = Inr v"
  shows "\<exists>k < length xs. v = xs ! k \<and> (\<forall>w. store xs i w = Inr (xs[k := w]))"
proof (cases "py_index (length xs) i")
  case None
  with assms show ?thesis by (simp add: subscript_def)
next
  case (Some k)
  with assms py_index_Some[OF Some] show ?thesis
    by (auto simp: subscript_def store_def)
qed

lemma filter_Not_update:
  "j < length r \<Longrightarrow> \<not> r ! j \<Longrightarrow> length (filter Not (r[j := True])) < length (filter Not r)"
proof (induction r arbitrary: j)
  case Nil
  then show ?case by simp
next
  case (Cons a r)
  then show ?case by (cases j) auto
qed

lemma unvisited_update:
  assumes "k < length vt" and "j < length (vt ! k)" and "\<not> vt ! k ! j"
  shows "unvisited (vt[k := (vt ! k)[j := True]]) < unvisited vt"
proof -
  let ?f = "\<lambda>r. length (filter Not r)"
  have a: "?f ((vt ! k)[j := True]) < ?f (vt ! k)"
    using assms by (simp add: filter_Not_update)
  have b: "?f (vt ! k) \<le> sum_list (map ?f vt)"
    using assms(1) by (intro member_le_sum_list) (auto simp: in_set_conv_nth intro!: image_eqI[of _ _ "vt ! k"])
  have "unvisited (vt[k := (vt ! k)[j := True]]) = sum_list (map ?f vt) + ?f ((vt ! k)[j := True]) - ?f (vt ! k)"
    using assms(1) by (simp add: unvisited_def map_update sum_list_update)
  with a b show ?thesis by (simp add: unvisited_def)
qed

lemma store2_unvisited:
  assumes "subscript2 vt row col = Inr False" and "store2 vt row col True = Inr vt'"
  shows "unvisited vt' < unvisited vt"
proof -
  from assms(1) obtain rw where rw: "subscript vt row = Inr rw" and c: "subscript rw col = Inr False"
    by (auto simp: subscript2_def split: sum.splits)
  from subscript_Inr[OF rw] obtain k where k: "k < length vt" "rw = vt ! k" "\<And>w. store vt row w = Inr (vt[k := w])"
    by blast
  from subscript_Inr[OF c] obtain j where j: "j < length rw" "False = rw ! j" "\<And>w. store rw col w = Inr (rw[j := w])"
    by blast
  from assms(2) rw k j have "vt' = vt[k := (vt ! k)[j := True]]"
    by (simp add: store2_def)
  with k j show ?thesis by (simp add: unvisited_update)
qed

lemma recurse_unvisited_dom:
  "recurse_captures_recurse_deltas_dom (Inl (g, color, row, col, vt)) \<Longrightarrow>
     recurse_captures g color row col vt = Inr (res, vt') \<Longrightarrow> unvisited vt' \<le> unvisited vt"
  "recurse_captures_recurse_deltas_dom (Inr (g, color, row, col, ds, rl, vt)) \<Longrightarrow>
     recurse_deltas g color row col ds rl vt = Inr (res, vt') \<Longrightarrow> unvisited vt' \<le> unvisited vt"
proof (induction g color row col vt and g color row col ds rl vt arbitrary: res vt' and res vt'
    rule: recurse_captures_recurse_deltas.pinduct)
  case (1 g color row col visit_table)
  show ?case
  proof (cases "\<exists>bb. is_valid g row col \<and> subscript2 visit_table row col = Inr False
           \<and> subscript2 (board g) row col = Inr (Some color)
           \<and> store2 visit_table row col True = Inr bb")
    case True
    then obtain bb where bb: "is_valid g row col" "subscript2 visit_table row col = Inr False"
        "subscript2 (board g) row col = Inr (Some color)" "store2 visit_table row col True = Inr bb"
      by blast
    with "1.prems" "1.hyps" have "recurse_deltas g color row col SQUARE_DELTAS [(row, col)] bb = Inr (res, vt')"
      by (simp add: recurse_captures.psimps)
    with bb have "unvisited vt' \<le> unvisited bb"
      by (intro "1.IH"[of False "Some color" color bb]) auto
    with store2_unvisited[OF bb(2) bb(4)] show ?thesis by simp
  next
    case False
    with "1.prems" "1.hyps" show ?thesis
      by (auto simp: recurse_captures.psimps split: if_splits sum.splits option.splits)
  qed
next
  case (2 g color row col return_list visit_table)
  then show ?case by (simp add: recurse_deltas.psimps)
next
  case (3 g color row col delta deltas return_list visit_table)
  let ?c = "recurse_captures g color (row + fst delta) (col + snd delta) visit_table"
  show ?case
  proof (cases ?c)
    case (Inl e)
    with "3.prems" "3.hyps" show ?thesis by (simp add: recurse_deltas.psimps)
  next
    case (Inr b)
    obtain x y where b: "b = (x, y)" by (cases b)
    with Inr have le: "unvisited y \<le> unvisited visit_table"
      by (intro "3.IH"(1)[of x y]) simp
    show ?thesis
    proof (cases x)
      case None
      with "3.prems" "3.hyps" Inr b
      have "recurse_deltas g color row col deltas return_list y = Inr (res, vt')"
        by (simp add: recurse_deltas.psimps)
      with None Inr b have "unvisited vt' \<le> unvisited y"
        by (intro "3.IH"(2)[of b x y res vt']) auto
      with le show ?thesis by simp
    next
      case (Some xs)
      show ?thesis
      proof (cases xs)
        case Nil
        with "3.prems" "3.hyps" Inr b Some le show ?thesis
          by (simp add: recurse_deltas.psimps)
      next
        case (Cons p ps)
        with "3.prems" "3.hyps" Inr b Some
        have "recurse_deltas g color row col deltas (return_list @ p # ps) y = Inr (res, vt')"
          by (simp add: recurse_deltas.psimps)
        with Cons Some Inr b have "unvisited vt' \<le> unvisited y"
          by (intro "3.IH"(3)[of b x y xs p ps res vt']) auto
        with le show ?thesis by simp
      qed
    qed
  qed
qed

termination recurse_captures
proof (relation "measures
    [\<lambda>x. case x of Inl (g, color, row, col, vt) \<Rightarrow> unvisited vt
                 | Inr (g, color, row, col, ds, rl, vt) \<Rightarrow> unvisited vt,
     \<lambda>x. case x of Inl _ \<Rightarrow> 0 | Inr (g, color, row, col, ds, rl, vt) \<Rightarrow> Suc (length ds)]", goal_cases)
  case 1
  then show ?case by simp
next
  case (2 g color row col visit_table b ba c bb)
  then show ?case using store2_unvisited[of visit_table row col bb] by simp
next
  case (3 g color row col delta deltas return_list visit_table)
  then show ?case by simp
next
  case (4 g color row col delta deltas return_list visit_table b x y)
  then show ?case using recurse_unvisited_dom(1)[of g color "row + fst delta" "col + snd delta" visit_table x y]
    by auto
next
  case (5 g color row col delta deltas return_list visit_table b x y x2 x21 x22)
  then show ?case using recurse_unvisited_dom(1)[of g color "row + fst delta" "col + snd delta" visit_table x y]
    by auto
qed

subsection \<open>Capture resolution\<close>

text \<open>
  \<open>scan_deltas\<close> is the first loop of \<open>go_find_captures\<close>; its state is the three
  locals \<open>opponent_color\<close> (unbound until an opponent stone is seen, modelled as
  \<open>None\<close>), \<open>opponent_piece_list\<close> and \<open>empty_space_adjacent\<close>.
  \<open>check_opponents\<close> is the loop over \<open>opponent_piece_list\<close>; its state is
  \<open>capture_list\<close> and the local \<open>visit_table\<close>, which is unbound (\<open>None\<close>)
  until the loop body has run once. Reading an unbound local raises
  \<open>UnboundLocalError\<close>; \<open>capture_list.extend(None)\<close> raises \<open>TypeError\<close>.
\<close>

definition new_visit_table :: "goban \<Rightarrow> visit_table" where
  "new_visit_table g = replicate (nat (height g)) (replicate (nat (width g)) False)"

fun scan_deltas ::
  "goban \<Rightarrow> color \<Rightarrow> int \<Rightarrow> int \<Rightarrow> (int \<times> int) list \<Rightarrow> color option \<times> coord list \<times> bool
     \<Rightarrow> error + (color option \<times> coord list \<times> bool)" where
  "scan_deltas g color row col [] st = Inr st"
| "scan_deltas g color row col (delta # deltas) (opponent_color, opponent_piece_list, empty_space_adjacent) =
     (let new_row = row + fst delta; new_col = col + snd delta in
      if is_valid g new_row new_col then
        (case subscript2 (board g) new_row new_col of
           Inl e \<Rightarrow> Inl e
         | Inr piece_at_loc \<Rightarrow>
             if piece_at_loc \<noteq> None \<and> piece_at_loc \<noteq> Some color then
               scan_deltas g color row col deltas
                 (piece_at_loc, opponent_piece_list @ [(new_row, new_col)], empty_space_adjacent)
             else if piece_at_loc = None then
               scan_deltas g color row col deltas (opponent_color, opponent_piece_list, True)
             else scan_deltas g color row col deltas
                 (opponent_color, opponent_piece_list, empty_space_adjacent))
      else scan_deltas g color row col deltas
             (opponent_color, opponent_piece_list, empty_space_adjacent))"

fun check_opponents ::
  "goban \<Rightarrow> color option \<Rightarrow> coord list \<Rightarrow> coord list \<times> visit_table option
     \<Rightarrow> error + (coord list \<times> visit_table option)" where
  "check_opponents g opponent_color [] st = Inr st"
| "check_opponents g opponent_color (opponent_piece # rest) (capture_list, visit_table) =
     (case opponent_color of
        None \<Rightarrow> Inl UnboundLocalError
      | Some oc \<Rightarrow>
          (case recurse_captures g oc (fst opponent_piece) (snd opponent_piece) (new_visit_table g) of
             Inl e \<Rightarrow> Inl e
           | Inr (None, visit_table') \<Rightarrow> Inl TypeError
           | Inr (Some xs, visit_table') \<Rightarrow>
               check_opponents g opponent_color rest (capture_list @ xs, Some visit_table')))"

definition go_find_captures :: "goban \<Rightarrow> int \<Rightarrow> int \<Rightarrow> error + (color option \<times> coord list)" where
  "go_find_captures g row col =
     (case subscript2 (board g) row col of
        Inl e \<Rightarrow> Inl e
      | Inr None \<Rightarrow> Inr (None, [])
      | Inr (Some color) \<Rightarrow>
          (case scan_deltas g color row col SQUARE_DELTAS (None, [], False) of
             Inl e \<Rightarrow> Inl e
           | Inr (opponent_color, opponent_piece_list, empty_space_adjacent) \<Rightarrow>
               if opponent_piece_list \<noteq> [] \<or> \<not> empty_space_adjacent then
                 (case check_opponents g opponent_color opponent_piece_list ([], None) of
                    Inl e \<Rightarrow> Inl e
                  | Inr (capture_list, visit_table) \<Rightarrow>
                      if capture_list \<noteq> [] then
                        (case opponent_color of
                           None \<Rightarrow> Inl UnboundLocalError
                         | Some oc \<Rightarrow> Inr (Some oc, capture_list))
                      else
                        (case visit_table of
                           None \<Rightarrow> Inl UnboundLocalError
                         | Some vt \<Rightarrow>
                             (case recurse_captures g color row col vt of
                                Inl e \<Rightarrow> Inl e
                              | Inr (None, vt') \<Rightarrow> Inl TypeError
                              | Inr (Some xs, vt') \<Rightarrow>
                                  if capture_list @ xs \<noteq> [] then Inr (Some color, capture_list @ xs)
                                  else Inr (None, []))))
               else Inr (None, [])))"

subsection \<open>The move engine\<close>

text \<open>
  \<open>clear_stones\<close> is the loop that empties the captured cells. \<open>go_play\<close> returns
  Python's \<open>None\<close> for a refused play and the 3-tuple for an accepted one; the model
  pairs the outcome (an exception or the returned value) with the goban as the call
  leaves it.
\<close>

fun clear_stones :: "cell list list \<Rightarrow> coord list \<Rightarrow> error option \<times> cell list list" where
  "clear_stones bd [] = (None, bd)"
| "clear_stones bd ((capture_row, capture_col) # rest) =
     (case store2 bd capture_row capture_col None of
        Inl e \<Rightarrow> (Some e, bd)
      | Inr bd' \<Rightarrow> clear_stones bd' rest)"

definition go_play ::
  "color \<Rightarrow> int \<Rightarrow> int \<Rightarrow> goban \<Rightarrow> (error + (coord \<times> color option \<times> coord list) option) \<times> goban" where
  "go_play color row col g =
     (if \<not> is_valid g row col then (Inr None, g)
      else case subscript2 (board g) row col of
        Inl e \<Rightarrow> (Inl e, g)
      | Inr (Some c) \<Rightarrow> (Inr None, g)
      | Inr None \<Rightarrow>
          (case store2 (board g) row col (Some color) of
             Inl e \<Rightarrow> (Inl e, g)
           | Inr bd \<Rightarrow>
               (let g1 = g\<lparr>board := bd, last_row := Some row, last_col := Some col\<rparr> in
                case go_find_captures g1 row col of
                  Inl e \<Rightarrow> (Inl e, g1)
                | Inr (color_captured, capture_list) \<Rightarrow>
                    (case (if color_captured \<noteq> None then clear_stones (board g1) capture_list
                           else (None, board g1)) of
                       (Some e, bd') \<Rightarrow> (Inl e, g1\<lparr>board := bd'\<rparr>)
                     | (None, bd') \<Rightarrow>
                         (Inr (Some ((row, col), color_captured, capture_list)), g1\<lparr>board := bd'\<rparr>)))))"

text \<open>A sequence of plays from a given goban, keeping the goban each play leaves.\<close>

fun play_all :: "goban \<Rightarrow> (color \<times> int \<times> int) list \<Rightarrow> goban" where
  "play_all g [] = g"
| "play_all g ((color, row, col) # rest) = play_all (snd (go_play color row col g)) rest"

section \<open>Reading a goban\<close>

text \<open>
  The vocabulary of the properties below. A grid is well formed when it has \<open>height\<close>
  rows of \<open>width\<close> cells each; \<open>init_board\<close> builds such a board and every
  operation keeps it so. \<open>cell_at\<close> is the read accessor for the colour at a
  coordinate, \<open>on_board\<close> is \<open>is_valid\<close> on a coordinate pair.
\<close>

definition in_grid :: "int \<Rightarrow> int \<Rightarrow> coord \<Rightarrow> bool" where
  "in_grid h w p = (0 \<le> fst p \<and> fst p < h \<and> 0 \<le> snd p \<and> snd p < w)"

definition grid_ok :: "int \<Rightarrow> int \<Rightarrow> 'a list list \<Rightarrow> bool" where
  "grid_ok h w xs = (length xs = nat h \<and> (\<forall>rw \<in> set xs. length rw = nat w))"

definition grid_at :: "'a list list \<Rightarrow> coord \<Rightarrow> 'a" where
  "grid_at xs p = xs ! nat (fst p) ! nat (snd p)"

definition grid_set :: "'a list list \<Rightarrow> coord \<Rightarrow> 'a \<Rightarrow> 'a list list" where
  "grid_set xs p v = xs[nat (fst p) := (xs ! nat (fst p))[nat (snd p) := v]]"

definition on_board :: "goban \<Rightarrow> coord \<Rightarrow> bool" where
  "on_board g p = is_valid g (fst p) (snd p)"

definition cell_at :: "goban \<Rightarrow> coord \<Rightarrow> cell" where
  "cell_at g p = grid_at (board g) p"

definition wf_goban :: "goban \<Rightarrow> bool" where
  "wf_goban g = grid_ok (height g) (width g) (board g)"

text \<open>
  The four orthogonal neighbours of a point, in the order of \<open>SQUARE_DELTAS\<close>; the
  neighbours that hold a stone of the other colour; and the goban right after
  \<open>go_play\<close> has written the stone and the last-move coordinates, before anything is
  removed.
\<close>

definition neighbors :: "coord \<Rightarrow> coord list" where
  "neighbors p = map (\<lambda>delta. (fst p + fst delta, snd p + snd delta)) SQUARE_DELTAS"

definition opponent_neighbors :: "goban \<Rightarrow> color \<Rightarrow> coord \<Rightarrow> coord list" where
  "opponent_neighbors g color p =
     filter (\<lambda>n. on_board g n \<and> cell_at g n \<noteq> None \<and> cell_at g n \<noteq> Some color) (neighbors p)"

definition place_stone :: "goban \<Rightarrow> color \<Rightarrow> int \<Rightarrow> int \<Rightarrow> goban" where
  "place_stone g color row col =
     g\<lparr>board := grid_set (board g) (row, col) (Some color), last_row := Some row, last_col := Some col\<rparr>"

text \<open>
  Groups and liberties, as the glossary of the specification has them: the group of a
  stone is what can be reached from it through orthogonally adjacent points on the board
  holding the same colour; a liberty of the group is an empty point on the board
  orthogonally adjacent to one of its stones.
\<close>

inductive same_group :: "goban \<Rightarrow> coord \<Rightarrow> coord \<Rightarrow> bool" for g :: goban and p :: coord where
  start: "on_board g p \<Longrightarrow> same_group g p p"
| extend: "same_group g p q \<Longrightarrow> n \<in> set (neighbors q) \<Longrightarrow> on_board g n \<Longrightarrow>
     cell_at g n = cell_at g p \<Longrightarrow> same_group g p n"

definition has_liberty :: "goban \<Rightarrow> coord \<Rightarrow> bool" where
  "has_liberty g p =
     (\<exists>q n. same_group g p q \<and> n \<in> set (neighbors q) \<and> on_board g n \<and> cell_at g n = None)"

subsection \<open>Visitation tables\<close>

text \<open>
  A visitation table is well formed when it has the dimensions of the goban.
  The remaining definitions state what a traversal does to the table:
  \<open>newly\<close> are the points it marks, \<open>grows\<close> says that it only adds marks and only on
  stones of the colour traced, and a point is \<open>sealed\<close> when it offers the traversal no
  way out: it is off the board, or a stone of the other colour, or a marked stone of the
  colour traced. \<open>rc_post\<close> and \<open>rd_post\<close> are the postconditions of
  \<open>recurse_captures\<close> and of its loop. \<open>opposite\<close> is the other of the two
  colours.
\<close>

definition visited_at :: "visit_table \<Rightarrow> coord \<Rightarrow> bool" where
  "visited_at vt p = grid_at vt p"

definition wf_table :: "goban \<Rightarrow> visit_table \<Rightarrow> bool" where
  "wf_table g vt = grid_ok (height g) (width g) vt"

definition marks_on_stones :: "goban \<Rightarrow> visit_table \<Rightarrow> bool" where
  "marks_on_stones g vt = (\<forall>q. on_board g q \<longrightarrow> visited_at vt q \<longrightarrow> cell_at g q \<noteq> None)"

definition newly :: "goban \<Rightarrow> visit_table \<Rightarrow> visit_table \<Rightarrow> coord set" where
  "newly g vt vt' = {q. on_board g q \<and> visited_at vt' q \<and> \<not> visited_at vt q}"

definition grows :: "goban \<Rightarrow> color \<Rightarrow> visit_table \<Rightarrow> visit_table \<Rightarrow> bool" where
  "grows g color vt vt' =
     (wf_table g vt' \<and> (\<forall>q. on_board g q \<longrightarrow> visited_at vt q \<longrightarrow> visited_at vt' q) \<and>
      (\<forall>q \<in> newly g vt vt'. cell_at g q = Some color))"

definition sealed :: "goban \<Rightarrow> color \<Rightarrow> visit_table \<Rightarrow> coord \<Rightarrow> bool" where
  "sealed g color vt n =
     (on_board g n \<longrightarrow> cell_at g n \<noteq> None \<and> (cell_at g n = Some color \<longrightarrow> visited_at vt n))"

definition rc_post ::
  "goban \<Rightarrow> color \<Rightarrow> visit_table \<Rightarrow> coord \<Rightarrow> coord list option \<Rightarrow> visit_table \<Rightarrow> bool" where
  "rc_post g color vt p res vt' =
     (grows g color vt vt' \<and>
      (res = None \<longrightarrow> vt' = vt \<and> sealed g color vt p) \<and>
      (\<forall>xs. res = Some xs \<longrightarrow> xs \<noteq> [] \<longrightarrow>
         distinct xs \<and> set xs = newly g vt vt' \<and> p \<in> set xs \<and>
         (\<forall>q \<in> set xs. \<forall>n \<in> set (neighbors q). sealed g color vt' n)) \<and>
      (res \<noteq> None \<longrightarrow> cell_at g p \<noteq> None \<longrightarrow> visited_at vt' p))"

definition rd_post ::
  "goban \<Rightarrow> color \<Rightarrow> visit_table \<Rightarrow> coord \<Rightarrow> (int \<times> int) list \<Rightarrow> coord list
     \<Rightarrow> coord list option \<Rightarrow> visit_table \<Rightarrow> bool" where
  "rd_post g color vt p ds rl res vt' =
     (grows g color vt vt' \<and> res \<noteq> None \<and>
      (\<forall>xs. res = Some xs \<longrightarrow> xs \<noteq> [] \<longrightarrow>
         (\<exists>ys. xs = rl @ ys \<and> distinct ys \<and> set ys = newly g vt vt' \<and>
            (\<forall>q \<in> set ys. \<forall>n \<in> set (neighbors q). sealed g color vt' n) \<and>
            (\<forall>d \<in> set ds. sealed g color vt' (fst p + fst d, snd p + snd d)))))"

definition marks_on_color :: "goban \<Rightarrow> color \<Rightarrow> visit_table \<Rightarrow> bool" where
  "marks_on_color g c vt = (\<forall>q. on_board g q \<longrightarrow> visited_at vt q \<longrightarrow> cell_at g q = Some c)"

fun opposite :: "color \<Rightarrow> color" where
  "opposite WHITE = BLACK"
| "opposite BLACK = WHITE"

subsection \<open>Subscripts on a well-formed grid\<close>

text \<open>
  Every subscript of the source is guarded by \<open>is_valid\<close>; on a well-formed grid a
  guarded subscript is in range, so it reads \<open>grid_at\<close> and stores \<open>grid_set\<close>.
\<close>

lemma subscript_nonneg:
  "0 \<le> i \<Longrightarrow> i < int (length xs) \<Longrightarrow> subscript xs i = Inr (xs ! nat i)"
  by (simp add: subscript_def py_index_def)

lemma store_nonneg:
  "0 \<le> i \<Longrightarrow> i < int (length xs) \<Longrightarrow> store xs i v = Inr (xs[nat i := v])"
  by (simp add: store_def py_index_def)

lemma grid_row_length:
  "grid_ok h w xs \<Longrightarrow> in_grid h w p \<Longrightarrow> nat (fst p) < length xs \<and> length (xs ! nat (fst p)) = nat w"
  by (auto simp: grid_ok_def in_grid_def)

lemma subscript2_grid:
  assumes "grid_ok h w xs" and "in_grid h w p"
  shows "subscript2 xs (fst p) (snd p) = Inr (grid_at xs p)"
proof -
  from grid_row_length[OF assms] assms(2)
  have "subscript xs (fst p) = Inr (xs ! nat (fst p))"
    and "subscript (xs ! nat (fst p)) (snd p) = Inr (xs ! nat (fst p) ! nat (snd p))"
    by (auto simp: in_grid_def intro!: subscript_nonneg)
  then show ?thesis by (simp add: subscript2_def grid_at_def)
qed

lemma store2_grid:
  assumes "grid_ok h w xs" and "in_grid h w p"
  shows "store2 xs (fst p) (snd p) v = Inr (grid_set xs p v)"
proof -
  from grid_row_length[OF assms] assms(2)
  have "subscript xs (fst p) = Inr (xs ! nat (fst p))"
    and "store (xs ! nat (fst p)) (snd p) v = Inr ((xs ! nat (fst p))[nat (snd p) := v])"
    and "\<And>rw. store xs (fst p) rw = Inr (xs[nat (fst p) := rw])"
    by (auto simp: in_grid_def intro!: subscript_nonneg store_nonneg)
  then show ?thesis by (simp add: store2_def grid_set_def)
qed

lemma grid_ok_set: "grid_ok h w xs \<Longrightarrow> in_grid h w p \<Longrightarrow> grid_ok h w (grid_set xs p v)"
  unfolding grid_ok_def grid_set_def in_grid_def
  by (auto dest!: set_update_subset_insert[THEN subsetD])

lemma grid_at_set:
  assumes "grid_ok h w xs" and "in_grid h w p" and "in_grid h w q"
  shows "grid_at (grid_set xs p v) q = (if q = p then v else grid_at xs q)"
proof -
  from grid_row_length[OF assms(1,2)] grid_row_length[OF assms(1,3)] assms(2,3)
  show ?thesis
    by (cases p; cases q) (auto simp: grid_at_def grid_set_def in_grid_def nth_list_update)
qed

lemma on_board_in_grid: "on_board g p = in_grid (height g) (width g) p"
  by (auto simp: on_board_def is_valid_def in_grid_def)

lemma subscript2_board:
  "wf_goban g \<Longrightarrow> on_board g p \<Longrightarrow> subscript2 (board g) (fst p) (snd p) = Inr (cell_at g p)"
  by (simp add: wf_goban_def on_board_in_grid cell_at_def subscript2_grid)

lemma wf_new_goban: "wf_goban new_goban"
  by (simp add: wf_goban_def grid_ok_def new_goban_def init_board_def)

section \<open>Refused plays\<close>

text \<open>
  C2: a play whose coordinate is out of bounds, or whose target cell already holds a stone
  of either colour, returns \<open>None\<close> (the play is refused) and leaves the goban as it
  was: every cell, both dimensions and the last-move coordinates.
\<close>

theorem go_play_rejected_unchanged:
  assumes "wf_goban g"
    and "\<not> is_valid g row col \<or> cell_at g (row, col) \<noteq> None"
  shows "go_play color row col g = (Inr None, g)"
proof (cases "is_valid g row col")
  case False
  then show ?thesis by (simp add: go_play_def)
next
  case True
  with assms(2) obtain c where c: "cell_at g (row, col) = Some c" by auto
  from True have "on_board g (row, col)" by (simp add: on_board_def)
  from subscript2_board[OF assms(1) this] c
  have "subscript2 (board g) row col = Inr (Some c)" by simp
  with True show ?thesis by (simp add: go_play_def)
qed

text \<open>
  The theorem at an out-of-bounds coordinate of the initial 19 by 19 goban, and at an
  occupied cell after one play.
\<close>

theorem go_play_rejected_unchanged_witness:
  "go_play BLACK 19 0 new_goban = (Inr None, new_goban) \<and>
   go_play WHITE 3 3 (snd (go_play BLACK 3 3 new_goban)) = (Inr None, snd (go_play BLACK 3 3 new_goban))"
proof -
  have a: "\<not> is_valid new_goban 19 0 \<or> cell_at new_goban (19, 0) \<noteq> None"
    by (simp add: is_valid_def new_goban_def init_board_def)
  let ?g = "snd (go_play BLACK 3 3 new_goban)"
  have w: "wf_goban ?g" by (simp add: wf_goban_def grid_ok_def) code_simp
  have b: "\<not> is_valid ?g 3 3 \<or> cell_at ?g (3, 3) \<noteq> None"
    by code_simp
  from go_play_rejected_unchanged[OF wf_new_goban a, of BLACK]
    go_play_rejected_unchanged[OF w b, of WHITE]
  show ?thesis by simp
qed

section \<open>Resize\<close>

text \<open>
  C8: \<open>resize\<close> with both dimensions in 3..26 gives a goban of the new dimensions
  whose board is well formed and entirely empty; with a dimension outside 3..26 it leaves
  the goban exactly as it was. (The method returns \<open>None\<close> either way; whether it
  took effect shows in the goban only.)
\<close>

theorem resize_in_bounds_empties_else_unchanged:
  "(3 \<le> w \<and> w \<le> 26 \<and> 3 \<le> h \<and> h \<le> 26 \<longrightarrow>
      width (resize w h g) = w \<and> height (resize w h g) = h \<and> wf_goban (resize w h g) \<and>
      (\<forall>r c. is_valid (resize w h g) r c \<longrightarrow> cell_at (resize w h g) (r, c) = None)) \<and>
   (\<not> (3 \<le> w \<and> w \<le> 26 \<and> 3 \<le> h \<and> h \<le> 26) \<longrightarrow> resize w h g = g)"
  by (auto simp: resize_def MIN_SIZE_def MAX_SIZE_def init_board_def wf_goban_def grid_ok_def is_valid_def cell_at_def grid_at_def)

text \<open>The theorem on a goban holding a stone: an accepted size and two refused ones.\<close>

theorem resize_witness:
  "width (resize 9 13 (snd (go_play BLACK 3 3 new_goban))) = 9 \<and>
   height (resize 9 13 (snd (go_play BLACK 3 3 new_goban))) = 13 \<and>
   cell_at (resize 9 13 (snd (go_play BLACK 3 3 new_goban))) (3, 3) = None \<and>
   resize 2 13 (snd (go_play BLACK 3 3 new_goban)) = snd (go_play BLACK 3 3 new_goban) \<and>
   resize 9 27 (snd (go_play BLACK 3 3 new_goban)) = snd (go_play BLACK 3 3 new_goban)"
proof -
  let ?g = "snd (go_play BLACK 3 3 new_goban)"
  have v: "is_valid (resize 9 13 ?g) 3 3"
    by (simp add: is_valid_def resize_def MIN_SIZE_def MAX_SIZE_def init_board_def)
  from resize_in_bounds_empties_else_unchanged[of 9 13 ?g] v
    resize_in_bounds_empties_else_unchanged[of 2 13 ?g]
    resize_in_bounds_empties_else_unchanged[of 9 27 ?g]
  show ?thesis by simp
qed

text \<open>
  C9: a successful resize clears \<open>last_row\<close> and \<open>last_col\<close> back to unset, besides
  discarding all stones. The code does not: \<open>resize\<close> assigns \<open>width\<close> and
  \<open>height\<close> and calls \<open>init_board\<close>, which assigns \<open>board\<close> only, whereas
  \<open>__init__\<close> sets both coordinates to \<open>None\<close> before it calls \<open>init_board\<close>.
  After a play at (3, 4) and a resize to 9 by 9 the emptied goban still records (3, 4) as
  its last move; after a play at (18, 18) and a resize to width 3 and height 26 it records
  (18, 18), which is not even a point of the new board.
\<close>

theorem resize_leaves_stale_last_move:
  "last_row (snd (go_play BLACK 3 4 new_goban)) = Some 3 \<and>
   last_col (snd (go_play BLACK 3 4 new_goban)) = Some 4 \<and>
   width (resize 9 9 (snd (go_play BLACK 3 4 new_goban))) = 9 \<and>
   height (resize 9 9 (snd (go_play BLACK 3 4 new_goban))) = 9 \<and>
   cell_at (resize 9 9 (snd (go_play BLACK 3 4 new_goban))) (3, 4) = None \<and>
   last_row (resize 9 9 (snd (go_play BLACK 3 4 new_goban))) = Some 3 \<and>
   last_col (resize 9 9 (snd (go_play BLACK 3 4 new_goban))) = Some 4 \<and>
   last_row (resize 9 9 (snd (go_play BLACK 3 4 new_goban))) \<noteq> None \<and>
   last_col (resize 9 9 (snd (go_play BLACK 3 4 new_goban))) \<noteq> None \<and>
   width (resize 3 26 (snd (go_play WHITE 18 18 new_goban))) = 3 \<and>
   height (resize 3 26 (snd (go_play WHITE 18 18 new_goban))) = 26 \<and>
   last_row (resize 3 26 (snd (go_play WHITE 18 18 new_goban))) = Some 18 \<and>
   last_col (resize 3 26 (snd (go_play WHITE 18 18 new_goban))) = Some 18 \<and>
   \<not> is_valid (resize 3 26 (snd (go_play WHITE 18 18 new_goban))) 18 18"
  by code_simp

section \<open>Invert\<close>

lemma invert_cell_invol: "invert_cell (invert_cell c) = c"
  by (cases c rule: invert_cell.cases) simp_all

text \<open>
  C10: \<open>invert\<close> keeps the dimensions and the shape of the grid, turns every
  \<open>BLACK\<close> cell into \<open>WHITE\<close> and every \<open>WHITE\<close> cell into \<open>BLACK\<close>, leaves
  every empty cell empty, and applied twice gives the goban back.
\<close>

theorem invert_swaps_colors_involution:
  "width (invert g) = width g \<and> height (invert g) = height g \<and>
   length (board (invert g)) = length (board g) \<and>
   (\<forall>r < length (board g). length (board (invert g) ! r) = length (board g ! r) \<and>
      (\<forall>c < length (board g ! r).
         (board g ! r ! c = Some BLACK \<longrightarrow> board (invert g) ! r ! c = Some WHITE) \<and>
         (board g ! r ! c = Some WHITE \<longrightarrow> board (invert g) ! r ! c = Some BLACK) \<and>
         (board g ! r ! c = None \<longrightarrow> board (invert g) ! r ! c = None))) \<and>
   invert (invert g) = g"
proof -
  have "map (map invert_cell) (map (map invert_cell) (board g)) = board g"
    by (simp add: map_idI invert_cell_invol comp_def)
  then have "invert (invert g) = g" by (simp add: invert_def)
  then show ?thesis by (simp add: invert_def)
qed

text \<open>The theorem on a 3 by 3 goban with a black stone at (0, 0) and a white one at (1, 1).\<close>

theorem invert_swaps_colors_involution_witness:
  "board (invert (play_all (resize 3 3 new_goban) [(BLACK, 0, 0), (WHITE, 1, 1)])) ! 0 ! 0 = Some WHITE \<and>
   board (invert (play_all (resize 3 3 new_goban) [(BLACK, 0, 0), (WHITE, 1, 1)])) ! 1 ! 1 = Some BLACK \<and>
   board (invert (play_all (resize 3 3 new_goban) [(BLACK, 0, 0), (WHITE, 1, 1)])) ! 2 ! 2 = None \<and>
   invert (invert (play_all (resize 3 3 new_goban) [(BLACK, 0, 0), (WHITE, 1, 1)])) =
     play_all (resize 3 3 new_goban) [(BLACK, 0, 0), (WHITE, 1, 1)]"
proof -
  define g where "g = play_all (resize 3 3 new_goban) [(BLACK, 0, 0), (WHITE, 1, 1)]"
  have b: "board g = [[Some BLACK, None, None], [None, Some WHITE, None], [None, None, None]]"
    unfolding g_def by code_simp
  have all: "\<forall>r < length (board g). \<forall>c < length (board g ! r).
      (board g ! r ! c = Some BLACK \<longrightarrow> board (invert g) ! r ! c = Some WHITE) \<and>
      (board g ! r ! c = Some WHITE \<longrightarrow> board (invert g) ! r ! c = Some BLACK) \<and>
      (board g ! r ! c = None \<longrightarrow> board (invert g) ! r ! c = None)"
    and inv: "invert (invert g) = g"
    using invert_swaps_colors_involution[of g] by blast+
  from all[rule_format, of 0 0] all[rule_format, of 1 1] all[rule_format, of 2 2] inv
  have "board (invert g) ! 0 ! 0 = Some WHITE \<and> board (invert g) ! 1 ! 1 = Some BLACK \<and>
      board (invert g) ! 2 ! 2 = None \<and> invert (invert g) = g"
    by (simp add: b)
  then show ?thesis unfolding g_def .
qed

section \<open>The traversal\<close>

subsection \<open>Tables\<close>

lemma subscript2_table:
  "wf_table g vt \<Longrightarrow> on_board g p \<Longrightarrow> subscript2 vt (fst p) (snd p) = Inr (visited_at vt p)"
  by (simp add: wf_table_def on_board_in_grid visited_at_def subscript2_grid)

lemma store2_table:
  "wf_table g vt \<Longrightarrow> on_board g p \<Longrightarrow> store2 vt (fst p) (snd p) True = Inr (grid_set vt p True)"
  by (simp add: wf_table_def on_board_in_grid store2_grid)

lemma wf_table_mark: "wf_table g vt \<Longrightarrow> on_board g p \<Longrightarrow> wf_table g (grid_set vt p True)"
  by (simp add: wf_table_def on_board_in_grid grid_ok_set)

lemma visited_mark:
  "wf_table g vt \<Longrightarrow> on_board g p \<Longrightarrow> on_board g q \<Longrightarrow>
     visited_at (grid_set vt p True) q = (q = p \<or> visited_at vt q)"
  by (simp add: wf_table_def on_board_in_grid visited_at_def grid_at_set)

lemma grows_refl: "wf_table g vt \<Longrightarrow> grows g color vt vt"
  by (simp add: grows_def newly_def)

lemma grows_trans:
  "grows g color vt vt1 \<Longrightarrow> grows g color vt1 vt2 \<Longrightarrow> grows g color vt vt2"
  unfolding grows_def newly_def by blast

lemma grows_marks_on_stones:
  "grows g color vt vt' \<Longrightarrow> marks_on_stones g vt \<Longrightarrow> marks_on_stones g vt'"
  unfolding grows_def newly_def marks_on_stones_def by fastforce

lemma grows_sealed:
  "grows g color vt vt' \<Longrightarrow> sealed g color vt n \<Longrightarrow> sealed g color vt' n"
  unfolding grows_def sealed_def by blast

lemma newly_trans:
  "grows g color vt vt1 \<Longrightarrow> grows g color vt1 vt2 \<Longrightarrow>
     newly g vt vt2 = newly g vt vt1 \<union> newly g vt1 vt2"
  unfolding grows_def newly_def by blast

lemma newly_disjoint: "newly g vt vt1 \<inter> newly g vt1 vt2 = {}"
  unfolding newly_def by blast

lemma grows_mark:
  assumes "wf_table g vt" and "on_board g p" and "\<not> visited_at vt p" and "cell_at g p = Some color"
  shows "grows g color vt (grid_set vt p True)"
    and "newly g vt (grid_set vt p True) = {p}"
proof -
  from assms show "newly g vt (grid_set vt p True) = {p}"
    unfolding newly_def by (auto simp: visited_mark)
  with assms show "grows g color vt (grid_set vt p True)"
    unfolding grows_def by (auto simp: wf_table_mark visited_mark)
qed

subsection \<open>What a traversal returns\<close>

text \<open>
  On a well-formed goban, from a well-formed table whose marks lie on stones, the traversal
  returns (it raises nothing) and its result satisfies the postcondition: a non-empty
  list is duplicate-free, is exactly the set of points marked by this call, and every
  neighbour of every listed point is sealed.
\<close>

lemma recurse_post:
  "wf_goban g \<Longrightarrow> wf_table g vt \<Longrightarrow> marks_on_stones g vt \<Longrightarrow>
     \<exists>res vt'. recurse_captures g color row col vt = Inr (res, vt') \<and>
       rc_post g color vt (row, col) res vt'"
  "wf_goban g \<Longrightarrow> wf_table g vt \<Longrightarrow> marks_on_stones g vt \<Longrightarrow> rl \<noteq> [] \<Longrightarrow>
     \<exists>res vt'. recurse_deltas g color row col ds rl vt = Inr (res, vt') \<and>
       rd_post g color vt (row, col) ds rl res vt'"
proof (induction g color row col vt and g color row col ds rl vt
    rule: recurse_captures_recurse_deltas.induct)
  case (1 g color row col vt)
  let ?p = "(row, col)"
  note wf = \<open>wf_goban g\<close> and wt = \<open>wf_table g vt\<close> and ms = \<open>marks_on_stones g vt\<close>
  show ?case
  proof (cases "on_board g ?p")
    case False
    then have "recurse_captures g color row col vt = Inr (None, vt)"
      by (simp add: on_board_def)
    moreover from False wt have "rc_post g color vt ?p None vt"
      by (simp add: rc_post_def grows_refl sealed_def)
    ultimately show ?thesis by blast
  next
    case ob: True
    then have valid: "is_valid g row col" by (simp add: on_board_def)
    from subscript2_table[OF wt ob] have sv: "subscript2 vt row col = Inr (visited_at vt ?p)" by simp
    from subscript2_board[OF wf ob] have sb: "subscript2 (board g) row col = Inr (cell_at g ?p)" by simp
    show ?thesis
    proof (cases "visited_at vt ?p")
      case True
      with valid sv have "recurse_captures g color row col vt = Inr (None, vt)" by simp
      moreover from True ms ob wt have "rc_post g color vt ?p None vt"
        by (simp add: rc_post_def grows_refl sealed_def marks_on_stones_def)
      ultimately show ?thesis by blast
    next
      case nv: False
      show ?thesis
      proof (cases "cell_at g ?p")
        case None
        with valid sv sb nv have "recurse_captures g color row col vt = Inr (Some [], vt)" by simp
        moreover from wt None have "rc_post g color vt ?p (Some []) vt"
          by (simp add: rc_post_def grows_refl)
        ultimately show ?thesis by blast
      next
        case (Some c)
        show ?thesis
        proof (cases "c = color")
          case False
          with valid sv sb nv Some have "recurse_captures g color row col vt = Inr (None, vt)" by simp
          moreover from False Some wt have "rc_post g color vt ?p None vt"
            by (simp add: rc_post_def grows_refl sealed_def)
          ultimately show ?thesis by blast
        next
          case True
          let ?vt1 = "grid_set vt ?p True"
          from store2_table[OF wt ob] have st: "store2 vt row col True = Inr ?vt1" by simp
          from True Some have cp: "cell_at g ?p = Some color" by simp
          note gm = grows_mark[OF wt ob nv cp]
          from gm(1) have wt1: "wf_table g ?vt1" by (simp add: grows_def)
          from grows_marks_on_stones[OF gm(1) ms] have ms1: "marks_on_stones g ?vt1" .
          from valid sv sb nv Some True st
          have eq: "recurse_captures g color row col vt =
              recurse_deltas g color row col SQUARE_DELTAS [?p] ?vt1" by simp
          have "\<exists>res vt'. recurse_deltas g color row col SQUARE_DELTAS [?p] ?vt1 = Inr (res, vt') \<and>
              rd_post g color ?vt1 ?p SQUARE_DELTAS [?p] res vt'"
            using valid sv nv sb Some True st wf wt1 ms1
            by (intro "1.IH"[of "visited_at vt ?p" "cell_at g ?p" c ?vt1]) auto
          then obtain res vt' where r: "recurse_deltas g color row col SQUARE_DELTAS [?p] ?vt1 = Inr (res, vt')"
            and post: "rd_post g color ?vt1 ?p SQUARE_DELTAS [?p] res vt'" by blast
          from post have g1: "grows g color ?vt1 vt'" and rn: "res \<noteq> None"
            by (simp_all add: rd_post_def)
          from grows_trans[OF gm(1) g1] have g: "grows g color vt vt'" .
          have nw: "newly g vt vt' = insert ?p (newly g ?vt1 vt')"
            using newly_trans[OF gm(1) g1] gm(2) by simp
          have pn: "?p \<notin> newly g ?vt1 vt'"
            using wt ob by (simp add: newly_def visited_mark)
          have "rc_post g color vt ?p res vt'"
            unfolding rc_post_def
          proof (intro conjI allI impI)
            show "grows g color vt vt'" by (rule g)
          next
            assume "res = None"
            with rn show "vt' = vt" by simp
          next
            assume "res = None"
            with rn show "sealed g color vt ?p" by simp
          next
            fix xs assume xs: "res = Some xs" "xs \<noteq> []"
            with post obtain ys where ys: "xs = [?p] @ ys" "distinct ys" "set ys = newly g ?vt1 vt'"
              "\<forall>q \<in> set ys. \<forall>n \<in> set (neighbors q). sealed g color vt' n"
              "\<forall>d \<in> set SQUARE_DELTAS. sealed g color vt' (fst ?p + fst d, snd ?p + snd d)"
              unfolding rd_post_def by blast
            from ys pn show "distinct xs" by simp
            from ys nw show "set xs = newly g vt vt'" by simp
            from ys show "?p \<in> set xs" by simp
            from ys(5) have "\<forall>n \<in> set (neighbors ?p). sealed g color vt' n"
              by (simp add: neighbors_def)
            with ys show "\<forall>q \<in> set xs. \<forall>n \<in> set (neighbors q). sealed g color vt' n"
              by simp
          next
            from wt ob have "visited_at ?vt1 ?p" by (simp add: visited_mark)
            with g1 ob show "visited_at vt' ?p" unfolding grows_def by blast
          qed
          with eq r show ?thesis by simp
        qed
      qed
    qed
  qed
next
  case (2 g color row col return_list vt)
  then show ?case by (simp add: rd_post_def grows_refl newly_def)
next
  case (3 g color row col delta deltas rl vt)
  let ?p = "(row, col)"
  let ?n = "(row + fst delta, col + snd delta)"
  note wf = \<open>wf_goban g\<close> and wt = \<open>wf_table g vt\<close> and ms = \<open>marks_on_stones g vt\<close>
    and rl = \<open>rl \<noteq> []\<close>
  from "3.IH"(1)[OF wf wt ms] obtain res1 vt1
    where c1: "recurse_captures g color (row + fst delta) (col + snd delta) vt = Inr (res1, vt1)"
      and p1: "rc_post g color vt ?n res1 vt1" by blast
  from p1 have g1: "grows g color vt vt1" by (simp add: rc_post_def)
  then have wt1: "wf_table g vt1" by (simp add: grows_def)
  from grows_marks_on_stones[OF g1 ms] have ms1: "marks_on_stones g vt1" .
  show ?case
  proof (cases res1)
    case None
    with p1 have same: "vt1 = vt" and sn: "sealed g color vt ?n" by (simp_all add: rc_post_def)
    from "3.IH"(2)[OF c1 _ None wf wt1 ms1 rl] obtain res vt'
      where r: "recurse_deltas g color row col deltas rl vt1 = Inr (res, vt')"
        and post: "rd_post g color vt1 ?p deltas rl res vt'" by auto
    from post same have g: "grows g color vt vt'" by (simp add: rd_post_def)
    from grows_sealed[OF g sn] have "sealed g color vt' ?n" .
    with post same have "rd_post g color vt ?p (delta # deltas) rl res vt'"
      unfolding rd_post_def by auto
    moreover from c1 None r
    have "recurse_deltas g color row col (delta # deltas) rl vt = Inr (res, vt')" by simp
    ultimately show ?thesis by blast
  next
    case (Some xs1)
    show ?thesis
    proof (cases xs1)
      case Nil
      with c1 Some have "recurse_deltas g color row col (delta # deltas) rl vt = Inr (Some [], vt1)"
        by simp
      moreover from g1 have "rd_post g color vt ?p (delta # deltas) rl (Some []) vt1"
        by (simp add: rd_post_def)
      ultimately show ?thesis by blast
    next
      case (Cons x xs')
      then have ne: "xs1 \<noteq> []" by simp
      from p1 Some ne have x1: "distinct xs1" "set xs1 = newly g vt vt1" "?n \<in> set xs1"
        "\<forall>q \<in> set xs1. \<forall>n \<in> set (neighbors q). sealed g color vt1 n"
        unfolding rc_post_def by blast+
      have rl': "rl @ x # xs' \<noteq> []" by simp
      from "3.IH"(3)[OF c1 _ Some Cons wf wt1 ms1 rl'] obtain res vt'
        where r: "recurse_deltas g color row col deltas (rl @ x # xs') vt1 = Inr (res, vt')"
          and post: "rd_post g color vt1 ?p deltas (rl @ x # xs') res vt'" by auto
      from post have g2: "grows g color vt1 vt'" and rn: "res \<noteq> None" by (simp_all add: rd_post_def)
      from grows_trans[OF g1 g2] have g: "grows g color vt vt'" .
      from x1(2,3) have nn: "on_board g ?n" "visited_at vt1 ?n" by (auto simp: newly_def)
      from x1(2,3) g1 have cn: "cell_at g ?n = Some color" by (auto simp: grows_def)
      from nn g2 have "visited_at vt' ?n" by (simp add: grows_def)
      with cn have sn: "sealed g color vt' ?n" by (simp add: sealed_def)
      have "rd_post g color vt ?p (delta # deltas) rl res vt'"
        unfolding rd_post_def
      proof (intro conjI allI impI)
        show "grows g color vt vt'" by (rule g)
        show "res \<noteq> None" by (rule rn)
      next
        fix xs assume xs: "res = Some xs" "xs \<noteq> []"
        with post obtain ys where ys: "xs = (rl @ x # xs') @ ys" "distinct ys"
          "set ys = newly g vt1 vt'"
          "\<forall>q \<in> set ys. \<forall>n \<in> set (neighbors q). sealed g color vt' n"
          "\<forall>d \<in> set deltas. sealed g color vt' (fst ?p + fst d, snd ?p + snd d)"
          unfolding rd_post_def by blast
        have a: "xs = rl @ (xs1 @ ys)" using ys(1) Cons by simp
        have b: "distinct (xs1 @ ys)"
          using x1(1,2) ys(2,3) newly_disjoint[of g vt vt1 vt'] by simp
        have c: "set (xs1 @ ys) = newly g vt vt'"
          using x1(2) ys(3) newly_trans[OF g1 g2] by simp
        have d: "\<forall>q \<in> set (xs1 @ ys). \<forall>n \<in> set (neighbors q). sealed g color vt' n"
          using x1(4) ys(4) grows_sealed[OF g2] by auto
        have e: "\<forall>d \<in> set (delta # deltas). sealed g color vt' (fst ?p + fst d, snd ?p + snd d)"
          using ys(5) sn by simp
        from a b c d e
        show "\<exists>ys. xs = rl @ ys \<and> distinct ys \<and> set ys = newly g vt vt' \<and>
            (\<forall>q \<in> set ys. \<forall>n \<in> set (neighbors q). sealed g color vt' n) \<and>
            (\<forall>d \<in> set (delta # deltas). sealed g color vt' (fst ?p + fst d, snd ?p + snd d))"
          by blast
      qed
      moreover from c1 Some Cons r
      have "recurse_deltas g color row col (delta # deltas) rl vt = Inr (res, vt')" by simp
      ultimately show ?thesis by blast
    qed
  qed
qed

lemma marks_on_color_stones: "marks_on_color g c vt \<Longrightarrow> marks_on_stones g vt"
  by (simp add: marks_on_color_def marks_on_stones_def)

lemma wf_new_visit_table: "wf_table g (new_visit_table g)"
  by (simp add: wf_table_def grid_ok_def new_visit_table_def)

lemma new_visit_table_unvisited: "on_board g q \<Longrightarrow> \<not> visited_at (new_visit_table g) q"
  by (simp add: visited_at_def grid_at_def new_visit_table_def on_board_in_grid in_grid_def)

lemma marks_on_color_new: "marks_on_color g c (new_visit_table g)"
  by (simp add: marks_on_color_def new_visit_table_unvisited)

lemma grows_marks_on_color:
  "grows g c vt vt' \<Longrightarrow> marks_on_color g c vt \<Longrightarrow> marks_on_color g c vt'"
  unfolding grows_def newly_def marks_on_color_def by blast

lemma recurse_captures_root:
  assumes wf: "wf_goban g" and wt: "wf_table g vt" and ms: "marks_on_stones g vt"
    and ob: "on_board g (row, col)" and nv: "\<not> visited_at vt (row, col)"
    and cp: "cell_at g (row, col) = Some color"
  shows "\<exists>xs vt'. recurse_captures g color row col vt = Inr (Some xs, vt') \<and>
           rc_post g color vt (row, col) (Some xs) vt'"
proof -
  from recurse_post(1)[OF wf wt ms, of color row col] obtain res vt'
    where r: "recurse_captures g color row col vt = Inr (res, vt')"
      and post: "rc_post g color vt (row, col) res vt'" by blast
  have "res \<noteq> None"
  proof
    assume "res = None"
    with post have "sealed g color vt (row, col)" by (simp add: rc_post_def)
    with ob cp nv show False by (simp add: sealed_def)
  qed
  then obtain xs where "res = Some xs" by auto
  with r post show ?thesis by blast
qed

lemma group_closed:
  assumes post: "rc_post g color vt p (Some xs) vt'" and ne: "xs \<noteq> []"
    and other: "\<forall>q. on_board g q \<longrightarrow> visited_at vt q \<longrightarrow> cell_at g q \<noteq> Some color"
    and q: "q \<in> set xs" and sg: "same_group g q r"
  shows "r \<in> set xs"
  using sg
proof (induction rule: same_group.induct)
  case start
  from q show ?case .
next
  case (extend r n)
  from post ne have nw: "set xs = newly g vt vt'" and gr: "grows g color vt vt'"
    and cl: "\<forall>q \<in> set xs. \<forall>n \<in> set (neighbors q). sealed g color vt' n"
    unfolding rc_post_def by blast+
  from q nw gr have cq: "cell_at g q = Some color" unfolding grows_def by blast
  from cl extend.IH extend.hyps(2) have "sealed g color vt' n" by blast
  with extend.hyps(3,4) cq have v: "visited_at vt' n" by (simp add: sealed_def)
  from other extend.hyps(3,4) cq have "\<not> visited_at vt n" by metis
  with v extend.hyps(3) nw show ?case by (simp add: newly_def)
qed

lemma recurse_captures_no_liberty:
  assumes wf: "wf_goban g" and wt: "wf_table g vt" and ms: "marks_on_stones g vt"
    and other: "\<forall>q. on_board g q \<longrightarrow> visited_at vt q \<longrightarrow> cell_at g q \<noteq> Some color"
    and r: "recurse_captures g color row col vt = Inr (Some xs, vt')" and ne: "xs \<noteq> []"
  shows "distinct xs" and "(row, col) \<in> set xs"
    and "\<forall>q \<in> set xs. on_board g q \<and> cell_at g q = Some color \<and> \<not> has_liberty g q"
proof -
  from recurse_post(1)[OF wf wt ms, of color row col] r
  have post: "rc_post g color vt (row, col) (Some xs) vt'" by auto
  from post ne show "distinct xs" and "(row, col) \<in> set xs"
    unfolding rc_post_def by blast+
  from post ne have nw: "set xs = newly g vt vt'" and gr: "grows g color vt vt'"
    and cl: "\<forall>q \<in> set xs. \<forall>n \<in> set (neighbors q). sealed g color vt' n"
    unfolding rc_post_def by blast+
  show "\<forall>q \<in> set xs. on_board g q \<and> cell_at g q = Some color \<and> \<not> has_liberty g q"
  proof
    fix q assume q: "q \<in> set xs"
    with nw gr have a: "on_board g q" "cell_at g q = Some color"
      unfolding grows_def newly_def by blast+
    have "\<not> has_liberty g q"
    proof
      assume "has_liberty g q"
      then obtain r n where sg: "same_group g q r" and n: "n \<in> set (neighbors r)" "on_board g n"
          "cell_at g n = None" by (auto simp: has_liberty_def)
      from group_closed[OF post ne other q sg] have "r \<in> set xs" .
      with cl n(1) have "sealed g color vt' n" by blast
      with n(2,3) show False by (simp add: sealed_def)
    qed
    with a show "on_board g q \<and> cell_at g q = Some color \<and> \<not> has_liberty g q" by simp
  qed
qed

lemma recurse_captures_none:
  assumes "wf_goban g" and "wf_table g vt"
    and "on_board g (row, col) \<longrightarrow>
           visited_at vt (row, col) \<or> (cell_at g (row, col) \<noteq> None \<and> cell_at g (row, col) \<noteq> Some color)"
  shows "recurse_captures g color row col vt = Inr (None, vt)"
proof (cases "on_board g (row, col)")
  case False
  then show ?thesis by (simp add: on_board_def)
next
  case True
  from subscript2_table[OF assms(2) True] subscript2_board[OF assms(1) True] True assms(3)
  show ?thesis by (auto simp: on_board_def)
qed

lemma recurse_deltas_all_none:
  "\<forall>d \<in> set ds. recurse_captures g color (row + fst d) (col + snd d) vt = Inr (None, vt) \<Longrightarrow>
     recurse_deltas g color row col ds rl vt = Inr (Some rl, vt)"
  by (induction ds) simp_all

lemma recurse_captures_isolated:
  assumes wf: "wf_goban g" and wt: "wf_table g vt"
    and ob: "on_board g (row, col)" and nv: "\<not> visited_at vt (row, col)"
    and cp: "cell_at g (row, col) = Some color"
    and nb: "\<forall>n \<in> set (neighbors (row, col)). on_board g n \<longrightarrow>
               cell_at g n \<noteq> None \<and> cell_at g n \<noteq> Some color"
  shows "recurse_captures g color row col vt = Inr (Some [(row, col)], grid_set vt (row, col) True)"
proof -
  let ?vt1 = "grid_set vt (row, col) True"
  from wf_table_mark[OF wt ob] have wt1: "wf_table g ?vt1" .
  have "\<forall>d \<in> set SQUARE_DELTAS.
      recurse_captures g color (row + fst d) (col + snd d) ?vt1 = Inr (None, ?vt1)"
  proof
    fix d assume "d \<in> set SQUARE_DELTAS"
    then have "(row + fst d, col + snd d) \<in> set (neighbors (row, col))"
      by (simp add: neighbors_def)
    with nb show "recurse_captures g color (row + fst d) (col + snd d) ?vt1 = Inr (None, ?vt1)"
      by (intro recurse_captures_none[OF wf wt1]) blast
  qed
  then have "recurse_deltas g color row col SQUARE_DELTAS [(row, col)] ?vt1 =
      Inr (Some [(row, col)], ?vt1)" by (rule recurse_deltas_all_none)
  moreover from subscript2_table[OF wt ob] subscript2_board[OF wf ob] store2_table[OF wt ob] ob nv cp
  have "recurse_captures g color row col vt =
      recurse_deltas g color row col SQUARE_DELTAS [(row, col)] ?vt1"
    by (simp add: on_board_def)
  ultimately show ?thesis by simp
qed

section \<open>Capture resolution\<close>

lemma opponent_cell: "(c \<noteq> None \<and> c \<noteq> Some color) = (c = Some (opposite color))"
proof (cases c)
  case None
  then show ?thesis by simp
next
  case (Some a)
  then show ?thesis by (cases a; cases color) auto
qed

lemma opponent_neighbors_opposite:
  "opponent_neighbors g color p =
     filter (\<lambda>n. on_board g n \<and> cell_at g n = Some (opposite color)) (neighbors p)"
  by (simp only: opponent_neighbors_def opponent_cell)

lemma opposite_neq: "opposite color \<noteq> color"
  by (cases color) simp_all

lemma scan_deltas_result:
  assumes wf: "wf_goban g"
  shows "scan_deltas g color row col ds (oc, opl, esa) =
     Inr (if filter (\<lambda>n. on_board g n \<and> cell_at g n = Some (opposite color))
               (map (\<lambda>d. (row + fst d, col + snd d)) ds) = [] then oc
          else Some (opposite color),
          opl @ filter (\<lambda>n. on_board g n \<and> cell_at g n = Some (opposite color))
               (map (\<lambda>d. (row + fst d, col + snd d)) ds),
          esa \<or> (\<exists>n \<in> set (map (\<lambda>d. (row + fst d, col + snd d)) ds). on_board g n \<and> cell_at g n = None))"
proof (induction ds arbitrary: oc opl esa)
  case Nil
  show ?case by simp
next
  case (Cons d ds)
  let ?n = "(row + fst d, col + snd d)"
  show ?case
  proof (cases "on_board g ?n")
    case False
    then have "\<not> is_valid g (row + fst d) (col + snd d)" by (simp add: on_board_def)
    with False Cons.IH show ?thesis by (simp add: Let_def)
  next
    case True
    then have v: "is_valid g (row + fst d) (col + snd d)" by (simp add: on_board_def)
    from subscript2_board[OF wf True]
    have sb: "subscript2 (board g) (row + fst d) (col + snd d) = Inr (cell_at g ?n)" by simp
    consider (opp) "cell_at g ?n = Some (opposite color)" | (emp) "cell_at g ?n = None"
      | (own) "cell_at g ?n = Some color"
      using opponent_cell[of "cell_at g ?n" color] by blast
    then show ?thesis
    proof cases
      case opp
      with v sb True Cons.IH opposite_neq[of color] show ?thesis by (simp add: Let_def)
    next
      case emp
      with v sb True Cons.IH show ?thesis by (auto simp: Let_def)
    next
      case own
      with v sb True Cons.IH opposite_neq[of color] show ?thesis
        by (auto simp: Let_def)
    qed
  qed
qed

lemma scan_deltas_start:
  assumes wf: "wf_goban g"
  shows "scan_deltas g color row col SQUARE_DELTAS (None, [], False) =
     Inr (if opponent_neighbors g color (row, col) = [] then None else Some (opposite color),
          opponent_neighbors g color (row, col),
          \<exists>n \<in> set (neighbors (row, col)). on_board g n \<and> cell_at g n = None)"
  unfolding scan_deltas_result[OF wf] opponent_neighbors_opposite
  by (simp add: neighbors_def)

lemma clear_stones_result:
  assumes "grid_ok h w bd" and "\<forall>q \<in> set caps. in_grid h w q"
  shows "\<exists>bd'. clear_stones bd caps = (None, bd') \<and> grid_ok h w bd' \<and>
           (\<forall>q. in_grid h w q \<longrightarrow> grid_at bd' q = (if q \<in> set caps then None else grid_at bd q))"
  using assms
proof (induction caps arbitrary: bd)
  case Nil
  then show ?case by simp
next
  case (Cons p caps)
  obtain r c where p: "p = (r, c)" by (cases p)
  from Cons.prems have ip: "in_grid h w p" by simp
  from store2_grid[OF Cons.prems(1) ip, of None] p
  have st: "store2 bd r c None = Inr (grid_set bd p None)" by simp
  from grid_ok_set[OF Cons.prems(1) ip] have ok: "grid_ok h w (grid_set bd p None)" .
  from Cons.IH[OF ok] Cons.prems(2) obtain bd' where
    r: "clear_stones (grid_set bd p None) caps = (None, bd')" and ok': "grid_ok h w bd'"
    and at: "\<forall>q. in_grid h w q \<longrightarrow>
        grid_at bd' q = (if q \<in> set caps then None else grid_at (grid_set bd p None) q)"
    by auto
  have "\<forall>q. in_grid h w q \<longrightarrow> grid_at bd' q = (if q \<in> set (p # caps) then None else grid_at bd q)"
  proof (intro allI impI)
    fix q assume q: "in_grid h w q"
    with at have "grid_at bd' q = (if q \<in> set caps then None else grid_at (grid_set bd p None) q)"
      by blast
    with grid_at_set[OF Cons.prems(1) ip q, of None]
    show "grid_at bd' q = (if q \<in> set (p # caps) then None else grid_at bd q)"
      by (cases "q = p") auto
  qed
  with r ok' st p show ?case by simp
qed

lemma distinct_count_list_le: "distinct xs \<Longrightarrow> count_list xs q \<le> 1"
  by (induction xs) (auto simp: count_list_0_iff)

lemma check_opponents_result:
  assumes wf: "wf_goban g"
    and pieces: "\<forall>n \<in> set pieces. on_board g n \<and> cell_at g n = Some c"
  shows "\<exists>caps vt. check_opponents g (Some c) pieces (acc, vt0) = Inr (acc @ caps, vt) \<and>
      (\<forall>q \<in> set caps. on_board g q \<and> cell_at g q = Some c \<and> \<not> has_liberty g q) \<and>
      (\<forall>q. count_list caps q \<le> length pieces) \<and>
      (pieces = [] \<longrightarrow> vt = vt0) \<and>
      (pieces \<noteq> [] \<longrightarrow>
         (\<exists>t. vt = Some t \<and> wf_table g t \<and> marks_on_color g c t \<and> visited_at t (last pieces))) \<and>
      ((\<forall>n \<in> set pieces. has_liberty g n) \<longrightarrow> caps = [])"
  using pieces
proof (induction pieces arbitrary: acc vt0)
  case Nil
  show ?case by simp
next
  case (Cons n pieces)
  obtain r cl where n: "n = (r, cl)" by (cases n)
  let ?fresh = "new_visit_table g"
  from Cons.prems n have ob: "on_board g (r, cl)" and cn: "cell_at g (r, cl) = Some c" by simp_all
  note ms = marks_on_color_stones[OF marks_on_color_new[of g c]]
  from recurse_captures_root[OF wf wf_new_visit_table ms ob new_visit_table_unvisited[OF ob] cn]
  obtain xs vt' where rc: "recurse_captures g c r cl ?fresh = Inr (Some xs, vt')"
    and post: "rc_post g c ?fresh (r, cl) (Some xs) vt'" by blast
  from post have gr: "grows g c ?fresh vt'" by (simp add: rc_post_def)
  then have wt': "wf_table g vt'" by (simp add: grows_def)
  from grows_marks_on_color[OF gr marks_on_color_new] have mc': "marks_on_color g c vt'" .
  have fresh_other: "\<forall>q. on_board g q \<longrightarrow> visited_at ?fresh q \<longrightarrow> cell_at g q \<noteq> Some c"
    by (simp add: new_visit_table_unvisited)
  have xs_props: "distinct xs" "\<forall>q \<in> set xs. on_board g q \<and> cell_at g q = Some c \<and> \<not> has_liberty g q"
    and xs_root: "xs \<noteq> [] \<longrightarrow> (r, cl) \<in> set xs"
  proof -
    show "distinct xs"
      using recurse_captures_no_liberty(1)[OF wf wf_new_visit_table ms fresh_other rc]
      by (cases "xs = []") simp_all
    show "\<forall>q \<in> set xs. on_board g q \<and> cell_at g q = Some c \<and> \<not> has_liberty g q"
      using recurse_captures_no_liberty(3)[OF wf wf_new_visit_table ms fresh_other rc]
      by (cases "xs = []") simp_all
    show "xs \<noteq> [] \<longrightarrow> (r, cl) \<in> set xs"
      using recurse_captures_no_liberty(2)[OF wf wf_new_visit_table ms fresh_other rc] by blast
  qed
  from Cons.prems have "\<forall>n \<in> set pieces. on_board g n \<and> cell_at g n = Some c" by simp
  from Cons.IH[OF this, of "acc @ xs" "Some vt'"] obtain caps' vt where
    ih: "check_opponents g (Some c) pieces (acc @ xs, Some vt') = Inr ((acc @ xs) @ caps', vt)"
      "\<forall>q \<in> set caps'. on_board g q \<and> cell_at g q = Some c \<and> \<not> has_liberty g q"
      "\<forall>q. count_list caps' q \<le> length pieces"
      "pieces = [] \<longrightarrow> vt = Some vt'"
      "pieces \<noteq> [] \<longrightarrow>
         (\<exists>t. vt = Some t \<and> wf_table g t \<and> marks_on_color g c t \<and> visited_at t (last pieces))"
      "(\<forall>n \<in> set pieces. has_liberty g n) \<longrightarrow> caps' = []"
    by blast
  have a: "check_opponents g (Some c) (n # pieces) (acc, vt0) = Inr (acc @ (xs @ caps'), vt)"
    using rc ih(1) n by simp
  have b: "\<forall>q \<in> set (xs @ caps'). on_board g q \<and> cell_at g q = Some c \<and> \<not> has_liberty g q"
    using xs_props(2) ih(2) by auto
  have c: "\<forall>q. count_list (xs @ caps') q \<le> length (n # pieces)"
  proof
    fix q
    from distinct_count_list_le[OF xs_props(1), of q] ih(3)
    have "count_list xs q + count_list caps' q \<le> 1 + length pieces"
      by (meson add_mono)
    then show "count_list (xs @ caps') q \<le> length (n # pieces)" by simp
  qed
  from post cn have root: "visited_at vt' (r, cl)" by (simp add: rc_post_def)
  have d: "\<exists>t. vt = Some t \<and> wf_table g t \<and> marks_on_color g c t \<and>
      visited_at t (last (n # pieces))"
    using ih(4,5) wt' mc' root n by (cases "pieces = []") auto
  have e: "(\<forall>m \<in> set (n # pieces). has_liberty g m) \<longrightarrow> xs @ caps' = []"
  proof
    assume all: "\<forall>m \<in> set (n # pieces). has_liberty g m"
    then have "has_liberty g (r, cl)" using n by simp
    with xs_root xs_props(2) have "xs = []" by blast
    moreover from all ih(6) have "caps' = []" by simp
    ultimately show "xs @ caps' = []" by simp
  qed
  from a b c d e show ?case by blast
qed

lemma wf_place_stone:
  assumes "wf_goban g" and "on_board g (row, col)"
  shows "wf_goban (place_stone g color row col)"
    and "\<And>q. on_board (place_stone g color row col) q = on_board g q"
    and "\<And>q. on_board g q \<Longrightarrow>
           cell_at (place_stone g color row col) q = (if q = (row, col) then Some color else cell_at g q)"
  using assms
  by (simp_all add: wf_goban_def place_stone_def on_board_def is_valid_def cell_at_def
        grid_ok_set grid_at_set in_grid_def)

lemma opponent_neighbors_props:
  "\<forall>n \<in> set (opponent_neighbors g color p). on_board g n \<and> cell_at g n = Some (opposite color)"
  by (simp add: opponent_neighbors_opposite)

lemma length_opponent_neighbors: "length (opponent_neighbors g color p) \<le> 4"
proof -
  have "length (opponent_neighbors g color p) \<le> length (neighbors p)"
    unfolding opponent_neighbors_def by (rule length_filter_le)
  then show ?thesis by (simp add: neighbors_def SQUARE_DELTAS_def)
qed

lemma marks_on_color_other:
  "marks_on_color g c vt \<Longrightarrow> c \<noteq> color \<Longrightarrow>
     \<forall>q. on_board g q \<longrightarrow> visited_at vt q \<longrightarrow> cell_at g q \<noteq> Some color"
  unfolding marks_on_color_def by auto

lemma go_find_captures_cases:
  assumes wf: "wf_goban g" and ob: "on_board g (row, col)" and cp: "cell_at g (row, col) = Some color"
  shows "go_find_captures g row col =
     (if opponent_neighbors g color (row, col) = [] then
        (if \<exists>n \<in> set (neighbors (row, col)). on_board g n \<and> cell_at g n = None then Inr (None, [])
         else Inl UnboundLocalError)
      else
        (case check_opponents g (Some (opposite color)) (opponent_neighbors g color (row, col)) ([], None) of
           Inl e \<Rightarrow> Inl e
         | Inr (capture_list, visit_table) \<Rightarrow>
             if capture_list \<noteq> [] then Inr (Some (opposite color), capture_list)
             else (case visit_table of
                     None \<Rightarrow> Inl UnboundLocalError
                   | Some vt \<Rightarrow>
                       (case recurse_captures g color row col vt of
                          Inl e \<Rightarrow> Inl e
                        | Inr (None, vt') \<Rightarrow> Inl TypeError
                        | Inr (Some xs, vt') \<Rightarrow>
                            if capture_list @ xs \<noteq> [] then Inr (Some color, capture_list @ xs)
                            else Inr (None, [])))))"
proof -
  from subscript2_board[OF wf ob] cp
  have "subscript2 (board g) row col = Inr (Some color)" by simp
  then show ?thesis
    by (simp add: go_find_captures_def scan_deltas_start[OF wf] split: sum.splits prod.splits)
qed

lemma go_find_captures_sound:
  assumes wf: "wf_goban g" and ob: "on_board g (row, col)" and cp: "cell_at g (row, col) = Some color"
    and res: "go_find_captures g row col = Inr (cc, caps)"
  shows "\<forall>q \<in> set caps. on_board g q \<and> cell_at g q \<noteq> None \<and> \<not> has_liberty g q"
    and "cc = None \<longrightarrow> caps = []"
    and "cc = Some color \<longrightarrow> distinct caps"
    and "\<forall>q. count_list caps q \<le> max 1 (length (opponent_neighbors g color (row, col)))"
proof -
  let ?F = "opponent_neighbors g color (row, col)"
  let ?goal = "(\<forall>q \<in> set caps. on_board g q \<and> cell_at g q \<noteq> None \<and> \<not> has_liberty g q) \<and>
    (cc = None \<longrightarrow> caps = []) \<and> (cc = Some color \<longrightarrow> distinct caps) \<and>
    (\<forall>q. count_list caps q \<le> max 1 (length ?F))"
  have ?goal
  proof (cases "?F = []")
    case True
    with res show ?thesis
      by (simp add: go_find_captures_cases[OF wf ob cp] split: if_splits)
  next
    case False
    from check_opponents_result[OF wf opponent_neighbors_props, of color "(row, col)" "[]" None] False
    obtain caps0 t where
      co: "check_opponents g (Some (opposite color)) ?F ([], None) = Inr (caps0, Some t)"
      and c0: "\<forall>q \<in> set caps0. on_board g q \<and> cell_at g q = Some (opposite color) \<and> \<not> has_liberty g q"
      and cnt: "\<forall>q. count_list caps0 q \<le> length ?F"
      and wt: "wf_table g t" and mc: "marks_on_color g (opposite color) t"
      by auto
    show ?thesis
    proof (cases "caps0 = []")
      case ne: False
      with res co False have "cc = Some (opposite color)" "caps = caps0"
        by (simp_all add: go_find_captures_cases[OF wf ob cp])
      moreover from cnt have "\<forall>q. count_list caps0 q \<le> max 1 (length ?F)"
        by (simp add: le_max_iff_disj)
      ultimately show ?thesis using c0 opposite_neq[of color] by auto
    next
      case True
      note other = marks_on_color_other[OF mc opposite_neq]
      from other ob cp have nv: "\<not> visited_at t (row, col)" by blast
      from recurse_captures_root[OF wf wt marks_on_color_stones[OF mc] ob nv cp]
      obtain xs vt' where rc: "recurse_captures g color row col t = Inr (Some xs, vt')" by blast
      show ?thesis
      proof (cases "xs = []")
        case True
        with res co False \<open>caps0 = []\<close> rc have "cc = None" "caps = []"
          by (simp_all add: go_find_captures_cases[OF wf ob cp])
        then show ?thesis by simp
      next
        case ne: False
        with res co False \<open>caps0 = []\<close> rc have eq: "cc = Some color" "caps = xs"
          by (simp_all add: go_find_captures_cases[OF wf ob cp])
        note nl = recurse_captures_no_liberty[OF wf wt marks_on_color_stones[OF mc] other rc ne]
        from nl(1) have "\<forall>q. count_list xs q \<le> 1" by (blast intro: distinct_count_list_le)
        then have "\<forall>q. count_list xs q \<le> max 1 (length ?F)"
          by (meson max.coboundedI1)
        with nl eq show ?thesis by auto
      qed
    qed
  qed
  then show "\<forall>q \<in> set caps. on_board g q \<and> cell_at g q \<noteq> None \<and> \<not> has_liberty g q"
    and "cc = None \<longrightarrow> caps = []"
    and "cc = Some color \<longrightarrow> distinct caps"
    and "\<forall>q. count_list caps q \<le> max 1 (length (opponent_neighbors g color (row, col)))"
    by blast+
qed

lemma go_find_captures_suicide:
  assumes wf: "wf_goban g" and ob: "on_board g (row, col)" and cp: "cell_at g (row, col) = Some color"
    and nb: "\<forall>n \<in> set (neighbors (row, col)).
               on_board g n \<and> cell_at g n \<noteq> None \<and> cell_at g n \<noteq> Some color \<and> has_liberty g n"
  shows "go_find_captures g row col = Inr (Some color, [(row, col)])"
proof -
  let ?F = "opponent_neighbors g color (row, col)"
  from nb have F: "?F = neighbors (row, col)" by (simp add: opponent_neighbors_def)
  then have ne: "?F \<noteq> []" by (simp add: neighbors_def SQUARE_DELTAS_def)
  from nb F have lib: "\<forall>n \<in> set ?F. has_liberty g n" by simp
  from check_opponents_result[OF wf opponent_neighbors_props, of color "(row, col)" "[]" None] ne lib
  obtain t where
    co: "check_opponents g (Some (opposite color)) ?F ([], None) = Inr ([], Some t)"
    and wt: "wf_table g t" and mc: "marks_on_color g (opposite color) t"
    by auto
  from marks_on_color_other[OF mc opposite_neq] ob cp
  have nv: "\<not> visited_at t (row, col)" by blast
  from nb have "\<forall>n \<in> set (neighbors (row, col)). on_board g n \<longrightarrow>
      cell_at g n \<noteq> None \<and> cell_at g n \<noteq> Some color" by blast
  from recurse_captures_isolated[OF wf wt ob nv cp this] co ne
  show ?thesis by (simp add: go_find_captures_cases[OF wf ob cp])
qed

section \<open>Accepted plays\<close>

lemma not_own_neighbor: "p \<notin> set (neighbors p)"
  by (cases p) (simp add: neighbors_def SQUARE_DELTAS_def)

lemma place_stone_neighbors:
  assumes "wf_goban g" and "on_board g p" and "n \<in> set (neighbors p)" and "on_board g n"
  shows "cell_at (place_stone g color (fst p) (snd p)) n = cell_at g n"
proof -
  from assms(2) have "on_board g (fst p, snd p)" by simp
  from wf_place_stone(3)[OF assms(1) this assms(4), where color = color]
    assms(3) not_own_neighbor[of p]
  show ?thesis by auto
qed

lemma opponent_neighbors_place_stone:
  assumes "wf_goban g" and "on_board g (row, col)"
  shows "opponent_neighbors (place_stone g color row col) color (row, col) =
         opponent_neighbors g color (row, col)"
  unfolding opponent_neighbors_def
proof (rule filter_cong[OF refl])
  fix n assume n: "n \<in> set (neighbors (row, col))"
  show "(on_board (place_stone g color row col) n \<and> cell_at (place_stone g color row col) n \<noteq> None \<and>
         cell_at (place_stone g color row col) n \<noteq> Some color) =
        (on_board g n \<and> cell_at g n \<noteq> None \<and> cell_at g n \<noteq> Some color)"
  proof (cases "on_board g n")
    case True
    from place_stone_neighbors[OF assms n True, where color = color]
    have "cell_at (place_stone g color row col) n = cell_at g n" by simp
    with wf_place_stone(2)[OF assms, where color = color] show ?thesis by simp
  next
    case False
    with wf_place_stone(2)[OF assms, where color = color] show ?thesis by simp
  qed
qed

lemma grid_set_restore:
  assumes "grid_ok h w xs" and "in_grid h w p"
  shows "grid_set (grid_set xs p v) p (grid_at xs p) = xs"
  using grid_row_length[OF assms]
  by (simp add: grid_set_def grid_at_def)

lemma go_play_placed:
  assumes wf: "wf_goban g" and ob: "on_board g (row, col)" and emp: "cell_at g (row, col) = None"
  shows "go_play color row col g =
     (case go_find_captures (place_stone g color row col) row col of
        Inl e \<Rightarrow> (Inl e, place_stone g color row col)
      | Inr (color_captured, capture_list) \<Rightarrow>
          (case (if color_captured \<noteq> None
                 then clear_stones (board (place_stone g color row col)) capture_list
                 else (None, board (place_stone g color row col))) of
             (Some e, bd') \<Rightarrow> (Inl e, (place_stone g color row col)\<lparr>board := bd'\<rparr>)
           | (None, bd') \<Rightarrow>
               (Inr (Some ((row, col), color_captured, capture_list)),
                (place_stone g color row col)\<lparr>board := bd'\<rparr>)))"
proof -
  from ob have v: "is_valid g row col" by (simp add: on_board_def)
  from subscript2_board[OF wf ob] emp
  have sb: "subscript2 (board g) row col = Inr None" by simp
  from wf ob have "store2 (board g) (fst (row, col)) (snd (row, col)) (Some color) =
      Inr (grid_set (board g) (row, col) (Some color))"
    unfolding wf_goban_def on_board_in_grid by (rule store2_grid)
  then have st: "store2 (board g) row col (Some color) = Inr (grid_set (board g) (row, col) (Some color))"
    by simp
  show ?thesis
    unfolding go_play_def place_stone_def Let_def using v sb st by simp
qed

lemma go_play_accepted:
  assumes wf: "wf_goban g"
    and res: "go_play color row col g = (Inr (Some (pos, cc, caps)), g')"
  obtains bd' where "on_board g (row, col)" and "cell_at g (row, col) = None" and "pos = (row, col)"
    and "go_find_captures (place_stone g color row col) row col = Inr (cc, caps)"
    and "(if cc \<noteq> None then clear_stones (board (place_stone g color row col)) caps
          else (None, board (place_stone g color row col))) = (None, bd')"
    and "g' = (place_stone g color row col)\<lparr>board := bd'\<rparr>"
proof -
  have v: "is_valid g row col"
  proof (rule ccontr)
    assume "\<not> is_valid g row col"
    with res show False by (simp add: go_play_def)
  qed
  then have ob: "on_board g (row, col)" by (simp add: on_board_def)
  from subscript2_board[OF wf ob]
  have sb: "subscript2 (board g) row col = Inr (cell_at g (row, col))" by simp
  have emp: "cell_at g (row, col) = None"
  proof (rule ccontr)
    assume "cell_at g (row, col) \<noteq> None"
    with res v sb show False by (auto simp: go_play_def)
  qed
  let ?g1 = "place_stone g color row col"
  note gp = go_play_placed[OF wf ob emp, of color]
  from res obtain cc' caps' where gf: "go_find_captures ?g1 row col = Inr (cc', caps')"
    unfolding gp by (cases "go_find_captures ?g1 row col") auto
  obtain eo bd' where cl: "(if cc' \<noteq> None then clear_stones (board ?g1) caps'
          else (None, board ?g1)) = (eo, bd')" by (meson surj_pair)
  from res gf cl have "eo = None" and "pos = (row, col)" and "cc' = cc" and "caps' = caps"
    and "g' = ?g1\<lparr>board := bd'\<rparr>"
    unfolding gp by (cases eo; simp)+
  with gf cl ob emp that show thesis by blast
qed

lemma go_play_accepted_result:
  assumes wf: "wf_goban g"
    and res: "go_play color row col g = (Inr (Some (pos, cc, caps)), g')"
  shows "\<forall>q \<in> set caps. \<not> has_liberty (place_stone g color row col) q"
    and "cc = Some color \<longrightarrow> distinct caps"
    and "\<forall>q. count_list caps q \<le> max 1 (length (opponent_neighbors g color (row, col)))"
    and "\<forall>q. on_board g q \<longrightarrow> q \<notin> set caps \<longrightarrow> cell_at g' q = cell_at (place_stone g color row col) q"
proof -
  let ?g1 = "place_stone g color row col"
  from go_play_accepted[OF wf res] obtain bd' where
    ob: "on_board g (row, col)" and emp: "cell_at g (row, col) = None"
    and gf: "go_find_captures ?g1 row col = Inr (cc, caps)"
    and cl: "(if cc \<noteq> None then clear_stones (board ?g1) caps else (None, board ?g1)) = (None, bd')"
    and g': "g' = ?g1\<lparr>board := bd'\<rparr>" by blast
  note w1 = wf_place_stone[OF wf ob, where color = color]
  from w1(2) ob have ob1: "on_board ?g1 (row, col)" by simp
  from w1(3)[OF ob] have c1: "cell_at ?g1 (row, col) = Some color" by simp
  note snd = go_find_captures_sound[OF w1(1) ob1 c1 gf]
  from snd(1) show "\<forall>q \<in> set caps. \<not> has_liberty ?g1 q" by blast
  from snd(3) show "cc = Some color \<longrightarrow> distinct caps" .
  from snd(4) opponent_neighbors_place_stone[OF wf ob, where color = color]
  show "\<forall>q. count_list caps q \<le> max 1 (length (opponent_neighbors g color (row, col)))" by simp
  show "\<forall>q. on_board g q \<longrightarrow> q \<notin> set caps \<longrightarrow> cell_at g' q = cell_at ?g1 q"
  proof (cases "cc = None")
    case True
    with cl g' show ?thesis by (simp add: cell_at_def)
  next
    case False
    from w1(1) have ok: "grid_ok (height ?g1) (width ?g1) (board ?g1)" by (simp add: wf_goban_def)
    from snd(1) have "\<forall>q \<in> set caps. in_grid (height ?g1) (width ?g1) q"
      by (simp add: on_board_in_grid)
    from clear_stones_result[OF ok this] cl False
    have at: "\<forall>q. in_grid (height ?g1) (width ?g1) q \<longrightarrow>
        grid_at bd' q = (if q \<in> set caps then None else grid_at (board ?g1) q)" by auto
    show ?thesis
    proof (intro allI impI)
      fix q assume "on_board g q" and nq: "q \<notin> set caps"
      with w1(2) have iq: "in_grid (height ?g1) (width ?g1) q" by (simp add: on_board_in_grid)
      from at[rule_format, OF iq] nq have "grid_at bd' q = grid_at (board ?g1) q" by simp
      with g' show "cell_at g' q = cell_at ?g1 q" by (simp add: cell_at_def)
    qed
  qed
qed

lemma has_liberty_direct:
  "on_board g p \<Longrightarrow> n \<in> set (neighbors p) \<Longrightarrow> on_board g n \<Longrightarrow> cell_at g n = None \<Longrightarrow>
     has_liberty g p"
  unfolding has_liberty_def by (blast intro: same_group.start)

text \<open>
  C3: for an accepted play on a well-formed goban, take the position right after the
  stone is placed. A stone of that position whose group has a liberty there is not in the
  returned list of captured stones, and its cell is the same after the play.
\<close>

theorem go_play_spares_groups_with_liberty:
  assumes "wf_goban g"
    and "go_play color row col g = (Inr (Some (pos, color_captured, capture_list)), g')"
    and "on_board g q" and "cell_at (place_stone g color row col) q \<noteq> None"
    and "has_liberty (place_stone g color row col) q"
  shows "q \<notin> set capture_list \<and> cell_at g' q = cell_at (place_stone g color row col) q"
proof -
  from go_play_accepted_result(1)[OF assms(1,2)] assms(5) have "q \<notin> set capture_list" by blast
  with go_play_accepted_result(4)[OF assms(1,2)] assms(3) show ?thesis by blast
qed

text \<open>
  The theorem at the capturing play of C4: the black stone at (0, 1) has the liberty
  (0, 0), is not listed and stays on the board.
\<close>

theorem go_play_spares_groups_with_liberty_witness:
  "(0, 1) \<notin> set [(1 :: int, 1 :: int)] \<and>
   cell_at (snd (go_play BLACK 2 1
       (play_all new_goban [(WHITE, 1, 1), (BLACK, 0, 1), (BLACK, 1, 0), (BLACK, 1, 2)]))) (0, 1) =
     Some BLACK"
proof -
  define g where "g = play_all new_goban [(WHITE, 1, 1), (BLACK, 0, 1), (BLACK, 1, 0), (BLACK, 1, 2)]"
  have wf: "wf_goban g" unfolding g_def by code_simp
  have res: "go_play BLACK 2 1 g = (Inr (Some ((2, 1), Some WHITE, [(1, 1)])), snd (go_play BLACK 2 1 g))"
    unfolding g_def by code_simp
  have ob: "on_board g (0, 1)" unfolding g_def by code_simp
  have st: "cell_at (place_stone g BLACK 2 1) (0, 1) = Some BLACK" unfolding g_def by code_simp
  have lib: "has_liberty (place_stone g BLACK 2 1) (0, 1)"
  proof (rule has_liberty_direct[of _ _ "(0, 0)"])
    show "on_board (place_stone g BLACK 2 1) (0, 1)" unfolding g_def by code_simp
    show "(0, 0) \<in> set (neighbors (0, 1))" by code_simp
    show "on_board (place_stone g BLACK 2 1) (0, 0)" unfolding g_def by code_simp
    show "cell_at (place_stone g BLACK 2 1) (0, 0) = None" unfolding g_def by code_simp
  qed
  from st have ne: "cell_at (place_stone g BLACK 2 1) (0, 1) \<noteq> None" by simp
  from go_play_spares_groups_with_liberty[OF wf res ob ne lib] st
  show ?thesis unfolding g_def by simp
qed

text \<open>
  C5: on a well-formed goban, let an empty point have all four orthogonal neighbours on
  the board, each holding a stone of the other colour whose group still has a liberty
  once the point is filled. Playing into the point is accepted, reports the mover's own
  colour as captured with the played point as the captured list, and leaves the point
  empty; the board is as it was before the play.
\<close>

theorem go_play_suicide:
  assumes wf: "wf_goban g" and ob: "on_board g (row, col)" and emp: "cell_at g (row, col) = None"
    and nb: "\<forall>n \<in> set (neighbors (row, col)).
        on_board g n \<and> cell_at g n \<noteq> None \<and> cell_at g n \<noteq> Some color \<and>
        has_liberty (place_stone g color row col) n"
  shows "fst (go_play color row col g) = Inr (Some ((row, col), Some color, [(row, col)])) \<and>
         cell_at (snd (go_play color row col g)) (row, col) = None \<and>
         board (snd (go_play color row col g)) = board g"
proof -
  let ?p = "(row, col)"
  let ?g1 = "place_stone g color row col"
  from ob have v: "is_valid g row col" by (simp add: on_board_def)
  from subscript2_board[OF wf ob] emp
  have sb: "subscript2 (board g) row col = Inr None" by simp
  from wf have ok: "grid_ok (height g) (width g) (board g)" by (simp add: wf_goban_def)
  from ob have ig: "in_grid (height g) (width g) ?p" by (simp add: on_board_in_grid)
  from store2_grid[OF ok ig, of "Some color"]
  have st: "store2 (board g) row col (Some color) = Inr (grid_set (board g) ?p (Some color))" by simp
  note w1 = wf_place_stone[OF wf ob, where color = color]
  from w1(2) ob have ob1: "on_board ?g1 ?p" by simp
  from w1(3)[OF ob] have c1: "cell_at ?g1 ?p = Some color" by simp
  have nb1: "\<forall>n \<in> set (neighbors ?p).
      on_board ?g1 n \<and> cell_at ?g1 n \<noteq> None \<and> cell_at ?g1 n \<noteq> Some color \<and> has_liberty ?g1 n"
  proof
    fix n assume n: "n \<in> set (neighbors ?p)"
    with nb have a: "on_board g n" "cell_at g n \<noteq> None" "cell_at g n \<noteq> Some color" "has_liberty ?g1 n"
      by blast+
    from place_stone_neighbors[OF wf ob n a(1), where color = color] have "cell_at ?g1 n = cell_at g n" by simp
    with a w1(2) show "on_board ?g1 n \<and> cell_at ?g1 n \<noteq> None \<and> cell_at ?g1 n \<noteq> Some color \<and>
        has_liberty ?g1 n" by simp
  qed
  from go_find_captures_suicide[OF w1(1) ob1 c1 nb1]
  have gf: "go_find_captures ?g1 row col = Inr (Some color, [?p])" .
  from w1(1) have ok1: "grid_ok (height g) (width g) (board ?g1)"
    by (simp add: wf_goban_def place_stone_def)
  from store2_grid[OF ok1 ig, of None]
  have cl: "clear_stones (board ?g1) [?p] = (None, grid_set (board ?g1) ?p None)" by simp
  have bd: "grid_set (board ?g1) ?p None = board g"
    using grid_set_restore[OF ok ig, of "Some color"] emp
    by (simp add: place_stone_def cell_at_def)
  have "go_play color row col g =
      (Inr (Some (?p, Some color, [?p])), ?g1\<lparr>board := board g\<rparr>)"
    unfolding go_play_placed[OF wf ob emp] using gf cl bd by simp
  with emp show ?thesis by (simp add: cell_at_def)
qed

text \<open>
  The theorem on the 19 by 19 goban with White at (0, 1), (1, 0), (1, 2), (2, 1) and Black
  playing (1, 1); each white stone has an empty neighbour.
\<close>

theorem go_play_suicide_witness:
  "fst (go_play BLACK 1 1
       (play_all new_goban [(WHITE, 0, 1), (WHITE, 1, 0), (WHITE, 1, 2), (WHITE, 2, 1)])) =
     Inr (Some ((1, 1), Some BLACK, [(1, 1)])) \<and>
   cell_at (snd (go_play BLACK 1 1
       (play_all new_goban [(WHITE, 0, 1), (WHITE, 1, 0), (WHITE, 1, 2), (WHITE, 2, 1)]))) (1, 1) = None"
proof -
  define g where "g = play_all new_goban [(WHITE, 0, 1), (WHITE, 1, 0), (WHITE, 1, 2), (WHITE, 2, 1)]"
  have wf: "wf_goban g" unfolding g_def by code_simp
  have ob: "on_board g (1, 1)" unfolding g_def by code_simp
  have emp: "cell_at g (1, 1) = None" unfolding g_def by code_simp
  have nbs: "neighbors (1, 1) = [(0, 1), (2, 1), (1, 0), (1, 2)]" by code_simp
  have l1: "has_liberty (place_stone g BLACK 1 1) (0, 1)"
  proof (rule has_liberty_direct[of _ _ "(0, 0)"])
    show "on_board (place_stone g BLACK 1 1) (0, 1)" unfolding g_def by code_simp
    show "(0, 0) \<in> set (neighbors (0, 1))" by code_simp
    show "on_board (place_stone g BLACK 1 1) (0, 0)" unfolding g_def by code_simp
    show "cell_at (place_stone g BLACK 1 1) (0, 0) = None" unfolding g_def by code_simp
  qed
  have l2: "has_liberty (place_stone g BLACK 1 1) (2, 1)"
  proof (rule has_liberty_direct[of _ _ "(3, 1)"])
    show "on_board (place_stone g BLACK 1 1) (2, 1)" unfolding g_def by code_simp
    show "(3, 1) \<in> set (neighbors (2, 1))" by code_simp
    show "on_board (place_stone g BLACK 1 1) (3, 1)" unfolding g_def by code_simp
    show "cell_at (place_stone g BLACK 1 1) (3, 1) = None" unfolding g_def by code_simp
  qed
  have l3: "has_liberty (place_stone g BLACK 1 1) (1, 0)"
  proof (rule has_liberty_direct[of _ _ "(2, 0)"])
    show "on_board (place_stone g BLACK 1 1) (1, 0)" unfolding g_def by code_simp
    show "(2, 0) \<in> set (neighbors (1, 0))" by code_simp
    show "on_board (place_stone g BLACK 1 1) (2, 0)" unfolding g_def by code_simp
    show "cell_at (place_stone g BLACK 1 1) (2, 0) = None" unfolding g_def by code_simp
  qed
  have l4: "has_liberty (place_stone g BLACK 1 1) (1, 2)"
  proof (rule has_liberty_direct[of _ _ "(1, 3)"])
    show "on_board (place_stone g BLACK 1 1) (1, 2)" unfolding g_def by code_simp
    show "(1, 3) \<in> set (neighbors (1, 2))" by code_simp
    show "on_board (place_stone g BLACK 1 1) (1, 3)" unfolding g_def by code_simp
    show "cell_at (place_stone g BLACK 1 1) (1, 3) = None" unfolding g_def by code_simp
  qed
  have c: "on_board g (0, 1) \<and> cell_at g (0, 1) = Some WHITE \<and>
           on_board g (2, 1) \<and> cell_at g (2, 1) = Some WHITE \<and>
           on_board g (1, 0) \<and> cell_at g (1, 0) = Some WHITE \<and>
           on_board g (1, 2) \<and> cell_at g (1, 2) = Some WHITE"
    unfolding g_def by code_simp
  have nb: "\<forall>n \<in> set (neighbors (1, 1)).
      on_board g n \<and> cell_at g n \<noteq> None \<and> cell_at g n \<noteq> Some BLACK \<and>
      has_liberty (place_stone g BLACK 1 1) n"
    unfolding nbs using c l1 l2 l3 l4 by simp
  from go_play_suicide[OF wf ob emp nb] show ?thesis unfolding g_def by simp
qed

text \<open>
  C7: the captured list of an accepted play holds each coordinate at most once, also when
  the one captured group touches the played stone through two or more of its neighbours.
  The code does not deliver that. On a 3 by 3 goban with White at (0, 1), (0, 0), (1, 0)
  and Black at (0, 2), (2, 0), all six plays accepted, the Black play at (1, 1) captures
  the white group, which touches (1, 1) through (0, 1) and through (1, 0). Each of the two
  roots is traversed with a table of its own and the results are concatenated, so the
  three captured stones are returned as a list of six, every stone twice.
\<close>

theorem go_play_lists_captured_group_twice:
  "fst (go_play BLACK 1 1 (play_all (resize 3 3 new_goban)
          [(WHITE, 0, 1), (WHITE, 0, 0), (WHITE, 1, 0), (BLACK, 0, 2), (BLACK, 2, 0)])) =
     Inr (Some ((1, 1), Some WHITE, [(0, 1), (0, 0), (1, 0), (1, 0), (0, 0), (0, 1)])) \<and>
   \<not> distinct [(0, 1), (0, 0), (1, 0), (1, 0), (0, 0), (0::int, 1::int)] \<and>
   map (cell_at (play_all (resize 3 3 new_goban)
          [(WHITE, 0, 1), (WHITE, 0, 0), (WHITE, 1, 0), (BLACK, 0, 2), (BLACK, 2, 0)]))
       [(0, 0), (0, 1), (0, 2), (1, 0), (1, 1), (1, 2), (2, 0), (2, 1), (2, 2)] =
     [Some WHITE, Some WHITE, Some BLACK, Some WHITE, None, None, Some BLACK, None, None]"
  by code_simp

section \<open>Every operation keeps the goban well formed\<close>

text \<open>
  The goban \<open>__init__\<close> builds is well formed, and \<open>resize\<close>, \<open>invert\<close> and
  \<open>go_play\<close> (also when it raises) keep it so: the gobans a program can reach are the
  well-formed ones.
\<close>

lemma wf_goban_init_board: "wf_goban (init_board g)"
  by (simp add: wf_goban_def grid_ok_def init_board_def)

lemma wf_goban_resize: "wf_goban g \<Longrightarrow> wf_goban (resize w h g)"
  by (simp add: resize_def wf_goban_init_board)

lemma wf_goban_invert: "wf_goban g \<Longrightarrow> wf_goban (invert g)"
  by (simp add: wf_goban_def grid_ok_def invert_def)

lemma go_play_refused:
  assumes wf: "wf_goban g" and no: "\<not> (on_board g (row, col) \<and> cell_at g (row, col) = None)"
  shows "go_play color row col g = (Inr None, g)"
proof (cases "is_valid g row col")
  case False
  then show ?thesis by (simp add: go_play_def)
next
  case True
  then have ob: "on_board g (row, col)" by (simp add: on_board_def)
  with no obtain c where "cell_at g (row, col) = Some c" by auto
  with subscript2_board[OF wf ob] True show ?thesis by (simp add: go_play_def)
qed

lemma wf_goban_go_play:
  assumes wf: "wf_goban g"
  shows "wf_goban (snd (go_play color row col g))"
proof (cases "on_board g (row, col) \<and> cell_at g (row, col) = None")
  case False
  from go_play_refused[OF wf False] wf show ?thesis by simp
next
  case True
  then have ob: "on_board g (row, col)" and emp: "cell_at g (row, col) = None" by simp_all
  let ?g1 = "place_stone g color row col"
  note w1 = wf_place_stone[OF wf ob, where color = color]
  from w1(2) ob have ob1: "on_board ?g1 (row, col)" by simp
  from w1(3)[OF ob] have c1: "cell_at ?g1 (row, col) = Some color" by simp
  note gp = go_play_placed[OF wf ob emp, of color]
  show ?thesis
  proof (cases "go_find_captures ?g1 row col")
    case (Inl e)
    with w1(1) show ?thesis by (simp add: gp)
  next
    case (Inr r)
    obtain cc caps where r: "r = (cc, caps)" by (cases r)
    from w1(1) have ok: "grid_ok (height ?g1) (width ?g1) (board ?g1)" by (simp add: wf_goban_def)
    from go_find_captures_sound(1)[OF w1(1) ob1 c1 Inr[unfolded r]]
    have "\<forall>q \<in> set caps. in_grid (height ?g1) (width ?g1) q" by (simp add: on_board_in_grid)
    from clear_stones_result[OF ok this] obtain bd' where
      cl: "clear_stones (board ?g1) caps = (None, bd')" and ok': "grid_ok (height ?g1) (width ?g1) bd'"
      by blast
    from Inr r cl ok' ok show ?thesis
      by (simp add: gp wf_goban_def)
  qed
qed

lemma wf_goban_play_all: "wf_goban g \<Longrightarrow> wf_goban (play_all g plays)"
  by (induction plays arbitrary: g) (auto simp: wf_goban_go_play)

section \<open>Plays that raise\<close>

text \<open>
  On a well-formed goban \<open>go_play\<close> raises in exactly one situation: the point is
  empty and on the board, and every neighbour on the board holds a stone of the mover's
  colour. Every other play returns.
\<close>

lemma go_find_captures_returns:
  assumes wf: "wf_goban g" and ob: "on_board g (row, col)" and cp: "cell_at g (row, col) = Some color"
    and ne: "opponent_neighbors g color (row, col) \<noteq> []"
  shows "\<exists>cc caps. go_find_captures g row col = Inr (cc, caps)"
proof -
  let ?F = "opponent_neighbors g color (row, col)"
  from check_opponents_result[OF wf opponent_neighbors_props, of color "(row, col)" "[]" None] ne
  obtain caps0 t where
    co: "check_opponents g (Some (opposite color)) ?F ([], None) = Inr (caps0, Some t)"
    and wt: "wf_table g t" and mc: "marks_on_color g (opposite color) t"
    by auto
  from marks_on_color_other[OF mc opposite_neq] ob cp have nv: "\<not> visited_at t (row, col)" by blast
  from recurse_captures_root[OF wf wt marks_on_color_stones[OF mc] ob nv cp]
  obtain xs vt' where rc: "recurse_captures g color row col t = Inr (Some xs, vt')" by blast
  from co rc ne show ?thesis
    by (simp add: go_find_captures_cases[OF wf ob cp])
qed

lemma own_neighbors_only:
  "(\<forall>n \<in> set (neighbors p). on_board g n \<longrightarrow> cell_at g n = Some color) =
   (opponent_neighbors g color p = [] \<and>
    \<not> (\<exists>n \<in> set (neighbors p). on_board g n \<and> cell_at g n = None))"
proof -
  have "\<And>c. (c = Some color) = (c \<noteq> Some (opposite color) \<and> c \<noteq> None)"
    using opponent_cell[of _ color] by auto
  then show ?thesis
    unfolding opponent_neighbors_opposite filter_empty_conv by blast
qed

lemma go_play_raises_iff:
  assumes wf: "wf_goban g"
  shows "if on_board g (row, col) \<and> cell_at g (row, col) = None \<and>
            (\<forall>n \<in> set (neighbors (row, col)). on_board g n \<longrightarrow> cell_at g n = Some color)
         then fst (go_play color row col g) = Inl UnboundLocalError
         else \<exists>r. fst (go_play color row col g) = Inr r"
proof (cases "on_board g (row, col) \<and> cell_at g (row, col) = None")
  case False
  from go_play_refused[OF wf False, of color] False show ?thesis by auto
next
  case True
  then have ob: "on_board g (row, col)" and emp: "cell_at g (row, col) = None" by simp_all
  let ?g1 = "place_stone g color row col"
  note w1 = wf_place_stone[OF wf ob, where color = color]
  from w1(2) ob have ob1: "on_board ?g1 (row, col)" by simp
  from w1(3)[OF ob] have c1: "cell_at ?g1 (row, col) = Some color" by simp
  have same: "(\<forall>n \<in> set (neighbors (row, col)). on_board ?g1 n \<longrightarrow> cell_at ?g1 n = Some color) =
      (\<forall>n \<in> set (neighbors (row, col)). on_board g n \<longrightarrow> cell_at g n = Some color)"
    using place_stone_neighbors[OF wf ob, where color = color] w1(2) by auto
  note gp = go_play_placed[OF wf ob emp, of color]
  show ?thesis
  proof (cases "\<forall>n \<in> set (neighbors (row, col)). on_board g n \<longrightarrow> cell_at g n = Some color")
    case own: True
    with same own_neighbors_only[of "(row, col)" ?g1 color]
    have "go_find_captures ?g1 row col = Inl UnboundLocalError"
      by (simp add: go_find_captures_cases[OF w1(1) ob1 c1])
    with own True show ?thesis by (simp add: gp)
  next
    case other: False
    have "\<exists>cc caps. go_find_captures ?g1 row col = Inr (cc, caps)"
    proof (cases "opponent_neighbors ?g1 color (row, col) = []")
      case True
      with other same own_neighbors_only[of "(row, col)" ?g1 color] show ?thesis
        by (simp add: go_find_captures_cases[OF w1(1) ob1 c1])
    next
      case False
      from go_find_captures_returns[OF w1(1) ob1 c1 False] show ?thesis .
    qed
    then obtain cc caps where gf: "go_find_captures ?g1 row col = Inr (cc, caps)" by blast
    from w1(1) have ok: "grid_ok (height ?g1) (width ?g1) (board ?g1)" by (simp add: wf_goban_def)
    from go_find_captures_sound(1)[OF w1(1) ob1 c1 gf]
    have "\<forall>q \<in> set caps. in_grid (height ?g1) (width ?g1) q" by (simp add: on_board_in_grid)
    from clear_stones_result[OF ok this] obtain bd' where
      "clear_stones (board ?g1) caps = (None, bd')" by blast
    with gf have "\<exists>r. fst (go_play color row col g) = Inr r" by (simp add: gp)
    with other show ?thesis by (simp only: simp_thms if_False)
  qed
qed

text \<open>
  C1: \<open>go_play\<close> returns, with a refusal or an accepted 3-tuple, for every colour and
  coordinate on every reachable goban, in particular when every neighbour of the played
  point is off the board or holds the mover's colour. The code does not. Black plays
  (0, 1) and (1, 0), both accepted, then (0, 0): the neighbours of (0, 0) are off the
  board or black, so \<open>opponent_piece_list\<close> is empty and \<open>empty_space_adjacent\<close> is
  false. The loop that assigns \<open>visit_table\<close> does not run, no capture is found, and
  the suicide check reads the unbound local: the call raises \<open>UnboundLocalError\<close>,
  after the stone has been written to the board.
\<close>

theorem go_play_own_corner_raises:
  "fst (go_play BLACK 0 1 new_goban) = Inr (Some ((0, 1), None, [])) \<and>
   fst (go_play BLACK 1 0 (play_all new_goban [(BLACK, 0, 1)])) = Inr (Some ((1, 0), None, [])) \<and>
   fst (go_play BLACK 0 0 (play_all new_goban [(BLACK, 0, 1), (BLACK, 1, 0)])) = Inl UnboundLocalError \<and>
   cell_at (snd (go_play BLACK 0 0 (play_all new_goban [(BLACK, 0, 1), (BLACK, 1, 0)]))) (0, 0) = Some BLACK"
  by code_simp

text \<open>
  After the loop over the opponent stones the local \<open>visit_table\<close> is never a new
  table: it is unbound when no opponent stone is adjacent, and otherwise it is the table
  of the last traversal, in which the root of that traversal is marked.
\<close>

lemma suicide_check_table_never_fresh:
  assumes wf: "wf_goban g"
    and scan: "scan_deltas g color row col SQUARE_DELTAS (None, [], False) = Inr (oc, opl, esa)"
    and loop: "check_opponents g oc opl ([], None) = Inr (caps, vt)"
  shows "vt \<noteq> Some (new_visit_table g)"
proof (cases "opl = []")
  case True
  with loop show ?thesis by simp
next
  case False
  from scan False have oc: "oc = Some (opposite color)"
    and opl: "opl = opponent_neighbors g color (row, col)"
    by (simp_all add: scan_deltas_start[OF wf] split: if_splits)
  from check_opponents_result[OF wf opponent_neighbors_props, of color "(row, col)" "[]" None]
    False loop oc opl
  obtain t where t: "vt = Some t" "visited_at t (last opl)" by auto
  from False have "last opl \<in> set opl" by simp
  with opl opponent_neighbors_props[of g color "(row, col)"] have "on_board g (last opl)" by blast
  from new_visit_table_unvisited[OF this] t show ?thesis by auto
qed

text \<open>
  C6: when capture resolution falls through to the suicide check, the traversal rooted
  at the just-placed stone starts from a table in which no cell is marked. The code does
  not build one. On a 3 by 3 goban with White at (0, 1), Black plays (0, 2): the scan
  finds the opponent stone (0, 1), its traversal marks (0, 1) and finds a liberty, no
  capture results, and the table handed to the suicide check still carries the mark at
  (0, 1), unlike a new table. With no opponent stone adjacent (Black at (0, 0) next to
  black stones at (0, 1) and (1, 0)) the loop leaves no table at all.
\<close>

theorem suicide_check_table_not_fresh:
  "scan_deltas (snd (go_play BLACK 0 2 (play_all (resize 3 3 new_goban) [(WHITE, 0, 1)])))
      BLACK 0 2 SQUARE_DELTAS (None, [], False) = Inr (Some WHITE, [(0, 1)], True) \<and>
   check_opponents (snd (go_play BLACK 0 2 (play_all (resize 3 3 new_goban) [(WHITE, 0, 1)])))
      (Some WHITE) [(0, 1)] ([], None) =
     Inr ([], Some [[False, True, False], [False, False, False], [False, False, False]]) \<and>
   new_visit_table (snd (go_play BLACK 0 2 (play_all (resize 3 3 new_goban) [(WHITE, 0, 1)]))) =
     [[False, False, False], [False, False, False], [False, False, False]] \<and>
   scan_deltas (snd (go_play BLACK 0 0 (play_all new_goban [(BLACK, 0, 1), (BLACK, 1, 0)])))
      BLACK 0 0 SQUARE_DELTAS (None, [], False) = Inr (None, [], False) \<and>
   check_opponents (snd (go_play BLACK 0 0 (play_all new_goban [(BLACK, 0, 1), (BLACK, 1, 0)])))
      None [] ([], None) = Inr ([], None)"
  by code_simp

section \<open>The single-stone capture\<close>

text \<open>
  C4: on the initial 19 by 19 goban, White at (1, 1), then Black at (0, 1), (1, 0) and
  (1, 2), each accepted with no capture; the Black play at (2, 1) is accepted and reports
  White captured with the list [(1, 1)]. Afterwards (1, 1) is empty and the four black
  stones are on the board.
\<close>

theorem go_play_single_stone_capture:
  "fst (go_play WHITE 1 1 new_goban) = Inr (Some ((1, 1), None, [])) \<and>
   fst (go_play BLACK 0 1 (play_all new_goban [(WHITE, 1, 1)])) = Inr (Some ((0, 1), None, [])) \<and>
   fst (go_play BLACK 1 0 (play_all new_goban [(WHITE, 1, 1), (BLACK, 0, 1)])) =
     Inr (Some ((1, 0), None, [])) \<and>
   fst (go_play BLACK 1 2 (play_all new_goban [(WHITE, 1, 1), (BLACK, 0, 1), (BLACK, 1, 0)])) =
     Inr (Some ((1, 2), None, [])) \<and>
   fst (go_play BLACK 2 1
         (play_all new_goban [(WHITE, 1, 1), (BLACK, 0, 1), (BLACK, 1, 0), (BLACK, 1, 2)])) =
     Inr (Some ((2, 1), Some WHITE, [(1, 1)])) \<and>
   map (cell_at (snd (go_play BLACK 2 1
         (play_all new_goban [(WHITE, 1, 1), (BLACK, 0, 1), (BLACK, 1, 0), (BLACK, 1, 2)]))))
       [(1, 1), (0, 1), (1, 0), (1, 2), (2, 1)] =
     [None, Some BLACK, Some BLACK, Some BLACK, Some BLACK]"
  by code_simp

end
